theory Spec2Isabelle
  imports Main "HOL-Library.AList" "HOL-Library.Sublist"
begin

section \<open>Module nodes and the object store\<close>

text \<open>
  A \<open>ModuleNode\<close> of \<^verbatim>\<open>moduleGraph.ts\<close> is a mutable object that other nodes and the
  three index maps point to. Objects live in a store (a list of nodes); a reference is the
  position of the object in the store, and \<^verbatim>\<open>new ModuleNode(url)\<close> appends to the store.
  Opaque payloads (\<open>info\<close>, \<open>meta\<close>, transform results, the evaluated SSR module) are
  strings. A JavaScript \<open>Set\<close> keeps insertion order and no duplicates: it is a list,
  with \<open>set_add\<close> appending an element only when it is not yet a member.
  The fields \<open>id\<close>, \<open>file\<close> and \<open>type\<close> are written \<open>id'\<close>, \<open>file'\<close> and
  \<open>type'\<close>, and a parameter \<open>mod\<close> of the source is written \<open>md\<close>. \<open>modify r f\<close>
  is an assignment to fields of the object \<open>r\<close>.
\<close>

type_synonym ref = nat
type_synonym opaque = string

datatype ModuleType = Js | Css

record ModuleNode =
  url :: string
  id' :: "string option"
  file' :: "string option"
  type' :: ModuleType
  info :: "opaque option"
  meta :: "opaque option"
  importers :: "ref list"
  importedModules :: "ref list"
  acceptedHmrDeps :: "ref list"
  isSelfAccepting :: bool
  transformResult :: "opaque option"
  ssrTransformResult :: "opaque option"
  ssrModule :: "opaque option"
  lastHMRTimestamp :: nat

type_synonym store = "ModuleNode list"

definition set_add :: "'a \<Rightarrow> 'a list \<Rightarrow> 'a list" where
  "set_add x xs = (if x \<in> set xs then xs else xs @ [x])"

definition set_delete :: "'a \<Rightarrow> 'a list \<Rightarrow> 'a list" where
  "set_delete x xs = removeAll x xs"

definition modify :: "ref \<Rightarrow> (ModuleNode \<Rightarrow> ModuleNode) \<Rightarrow> store \<Rightarrow> store" where
  "modify r f h = h[r := f (h ! r)]"

section \<open>Invalidation\<close>

text \<open>
  \<^verbatim>\<open>invalidateSSRModule(mod, seen)\<close>: return when \<open>mod\<close> is in \<open>seen\<close>; otherwise add it
  to \<open>seen\<close>, clear its \<open>ssrModule\<close> and recurse into every importer. The traversal
  state is the store, the set \<open>seen\<close> and a log of visits. The log is not in the source:
  every execution of the two statements after the guard (\<^verbatim>\<open>seen.add(mod)\<close> and
  \<^verbatim>\<open>mod.ssrModule = null\<close>) appends the node to it, whatever \<open>seen\<close> holds, so a node
  that is visited twice is twice in the log. \<open>forEach_importer\<close> is the
  \<^verbatim>\<open>mod.importers.forEach\<close> loop. A reference that names no allocated object cannot be
  written in the source; the model leaves the state as it is there.
\<close>

type_synonym traversal = "store \<times> ref list \<times> ref list"

function invalidateSSRModule :: "ref \<Rightarrow> traversal \<Rightarrow> traversal"
  and forEach_importer :: "ref list \<Rightarrow> traversal \<Rightarrow> traversal"
where
  "invalidateSSRModule md (h, seen, visits) =
     (if md \<in> set seen \<or> \<not> md < length h then (h, seen, visits)
      else forEach_importer (importers (h ! md))
             (modify md (\<lambda>n. n\<lparr>ssrModule := None\<rparr>) h, set_add md seen, visits @ [md]))"
| "forEach_importer [] st = st"
| "forEach_importer (importer # rest) st = forEach_importer rest (invalidateSSRModule importer st)"
  by pat_completeness auto

text \<open>
  \<^verbatim>\<open>invalidateModule(mod, seen)\<close> clears the node's own \<open>info\<close>, \<open>transformResult\<close>
  and \<open>ssrTransformResult\<close> and starts the cascade.
\<close>

definition invalidateModule :: "ref \<Rightarrow> traversal \<Rightarrow> traversal" where
  "invalidateModule md st =
     invalidateSSRModule md
       (modify md (\<lambda>n. n\<lparr>info := None, transformResult := None, ssrTransformResult := None\<rparr>) (fst st),
        snd st)"

section \<open>The module graph\<close>

text \<open>
  The graph is constructed with the resolver \<open>resolveId\<close>; the helpers it imports from
  \<^verbatim>\<open>../utils\<close>, \<^verbatim>\<open>../constants\<close>, \<^verbatim>\<open>../plugins/css\<close>, \<^verbatim>\<open>path\<close> and \<^verbatim>\<open>url\<close> are defined
  outside \<^verbatim>\<open>moduleGraph.ts\<close>, so the operations take them as parameters, collected in
  \<open>ports\<close>. A JavaScript \<open>Map\<close> keeps insertion order and \<open>set\<close> on a present key
  keeps the key's position: an association list with \<open>AList.update\<close>.
\<close>

datatype error = TypeError

record PartialResolvedId =
  resolved_id :: string
  resolved_meta :: "opaque option"

record UrlParts =
  pathname :: "string option"
  search :: "string option"
  hash :: "string option"

record ports =
  resolveId :: "string \<Rightarrow> bool \<Rightarrow> PartialResolvedId option"
  removeTimestampQuery :: "string \<Rightarrow> string"
  removeImportQuery :: "string \<Rightarrow> string"
  cleanUrl :: "string \<Rightarrow> string"
  normalizePath :: "string \<Rightarrow> string"
  FS_PREFIX :: string
  isDirectCSSRequest :: "string \<Rightarrow> bool"
  extname :: "string \<Rightarrow> string"
  parseUrl :: "string \<Rightarrow> UrlParts"

record ModuleGraph =
  heap :: store
  urlToModuleMap :: "(string \<times> ref) list"
  idToModuleMap :: "(string \<times> ref) list"
  fileToModulesMap :: "(string \<times> ref list) list"
  safeModulesPath :: "string list"

definition empty_graph :: ModuleGraph where
  "empty_graph = \<lparr>heap = [], urlToModuleMap = [], idToModuleMap = [],
                   fileToModulesMap = [], safeModulesPath = []\<rparr>"

text \<open>The constructor \<^verbatim>\<open>new ModuleNode(url)\<close> with the field initialisers of the class.\<close>

definition new_ModuleNode :: "ports \<Rightarrow> string \<Rightarrow> ModuleNode" where
  "new_ModuleNode p u =
     \<lparr>url = u, id' = None, file' = None,
      type' = (if isDirectCSSRequest p u then Css else Js),
      info = None, meta = None, importers = [], importedModules = [], acceptedHmrDeps = [],
      isSelfAccepting = False, transformResult = None, ssrTransformResult = None,
      ssrModule = None, lastHMRTimestamp = 0\<rparr>"

text \<open>
  \<^verbatim>\<open>resolveUrl\<close>. The optional \<open>ssr\<close> argument is a \<open>bool option\<close> and \<^verbatim>\<open>!!ssr\<close> is
  \<open>ssr = Some True\<close>. \<^verbatim>\<open>resolved?.id || url\<close> takes \<open>url\<close> also when the id is the
  empty string. \<^verbatim>\<open>pathname!.endsWith(ext)\<close> on a \<open>null\<close> pathname raises a TypeError.
\<close>

definition or_empty :: "string option \<Rightarrow> string" where
  "or_empty s = (case s of None \<Rightarrow> [] | Some t \<Rightarrow> t)"

definition resolveUrl ::
  "ports \<Rightarrow> string \<Rightarrow> bool option \<Rightarrow> error + (string \<times> string \<times> opaque option)" where
  "resolveUrl p rawUrl ssr =
     (let u = removeImportQuery p (removeTimestampQuery p rawUrl);
          resolved = resolveId p u (ssr = Some True);
          resolvedId = (case resolved of None \<Rightarrow> u
                        | Some r \<Rightarrow> if resolved_id r = [] then u else resolved_id r);
          ext = extname p (cleanUrl p resolvedId);
          parts = parseUrl p u;
          m = (case resolved of None \<Rightarrow> None | Some r \<Rightarrow> resolved_meta r)
      in if ext \<noteq> [] then
           (case pathname parts of
              None \<Rightarrow> Inl TypeError
            | Some pn \<Rightarrow>
                if \<not> suffix ext pn
                then Inr (pn @ ext @ or_empty (search parts) @ or_empty (hash parts), resolvedId, m)
                else Inr (u, resolvedId, m))
         else Inr (u, resolvedId, m))"

definition getModuleByUrl ::
  "ports \<Rightarrow> ModuleGraph \<Rightarrow> string \<Rightarrow> bool option \<Rightarrow> error + ref option" where
  "getModuleByUrl p g rawUrl ssr =
     (case resolveUrl p rawUrl ssr of
        Inl e \<Rightarrow> Inl e
      | Inr (u, resolvedId, m) \<Rightarrow> Inr (map_of (urlToModuleMap g) u))"

definition getModuleById :: "ports \<Rightarrow> ModuleGraph \<Rightarrow> string \<Rightarrow> ref option" where
  "getModuleById p g i = map_of (idToModuleMap g) (removeTimestampQuery p i)"

definition getModulesByFile :: "ModuleGraph \<Rightarrow> string \<Rightarrow> ref list option" where
  "getModulesByFile g f = map_of (fileToModulesMap g) f"

text \<open>
  \<^verbatim>\<open>onFileChange\<close> and \<^verbatim>\<open>invalidateAll\<close> return nothing in the source; the second
  component returned here is the log of the visits of all their invalidations. Each
  starts with a new, empty \<open>seen\<close> and passes it on from one invalidation to the next.
\<close>

definition onFileChange :: "ModuleGraph \<Rightarrow> string \<Rightarrow> ModuleGraph \<times> ref list" where
  "onFileChange g f =
     (case getModulesByFile g f of
        None \<Rightarrow> (g, [])
      | Some mods \<Rightarrow>
          (let st = fold invalidateModule mods (heap g, [], [])
           in (g\<lparr>heap := fst st\<rparr>, snd (snd st))))"

definition invalidateAll :: "ModuleGraph \<Rightarrow> ModuleGraph \<times> ref list" where
  "invalidateAll g =
     (let st = fold invalidateModule (map snd (idToModuleMap g)) (heap g, [], [])
      in (g\<lparr>heap := fst st\<rparr>, snd (snd st)))"

text \<open>\<^verbatim>\<open>ensureEntryFromUrl\<close>: the node registered under the canonical URL, or a new one.\<close>

definition ensureEntryFromUrl ::
  "ports \<Rightarrow> ModuleGraph \<Rightarrow> string \<Rightarrow> bool option \<Rightarrow> error + (ModuleGraph \<times> ref)" where
  "ensureEntryFromUrl p g rawUrl ssr =
     (case resolveUrl p rawUrl ssr of
        Inl e \<Rightarrow> Inl e
      | Inr (u, resolvedId, m) \<Rightarrow>
          (case map_of (urlToModuleMap g) u of
             Some md \<Rightarrow> Inr (g, md)
           | None \<Rightarrow>
               (let md = length (heap g);
                    n0 = new_ModuleNode p u;
                    n1 = (if m \<noteq> None then n0\<lparr>meta := m\<rparr> else n0);
                    f = cleanUrl p resolvedId;
                    n2 = n1\<lparr>id' := Some resolvedId, file' := Some f\<rparr>;
                    fileMappedModules =
                      (case map_of (fileToModulesMap g) f of None \<Rightarrow> [] | Some ms \<Rightarrow> ms)
                in Inr (g\<lparr>heap := heap g @ [n2],
                          urlToModuleMap := AList.update u md (urlToModuleMap g),
                          idToModuleMap := AList.update resolvedId md (idToModuleMap g),
                          fileToModulesMap :=
                            AList.update f (set_add md fileMappedModules) (fileToModulesMap g)\<rparr>,
                        md))))"

text \<open>
  \<^verbatim>\<open>createFileOnlyEntry\<close>: the first node of the file's set with the file-system URL or
  with the file as id, or a new node that is added to the file index only.
\<close>

definition createFileOnlyEntry :: "ports \<Rightarrow> ModuleGraph \<Rightarrow> string \<Rightarrow> ModuleGraph \<times> ref" where
  "createFileOnlyEntry p g file0 =
     (let f = normalizePath p file0;
          g1 = (case map_of (fileToModulesMap g) f of
                  None \<Rightarrow> g\<lparr>fileToModulesMap := AList.update f [] (fileToModulesMap g)\<rparr>
                | Some ms \<Rightarrow> g);
          fileMappedModules = (case map_of (fileToModulesMap g) f of None \<Rightarrow> [] | Some ms \<Rightarrow> ms);
          u = FS_PREFIX p @ f
      in case find (\<lambda>m. url (heap g ! m) = u \<or> id' (heap g ! m) = Some f) fileMappedModules of
           Some m \<Rightarrow> (g1, m)
         | None \<Rightarrow>
             (let md = length (heap g)
              in (g1\<lparr>heap := heap g @ [(new_ModuleNode p u)\<lparr>file' := Some f\<rparr>],
                     fileToModulesMap :=
                       AList.update f (set_add md fileMappedModules) (fileToModulesMap g1)\<rparr>,
                  md)))"

text \<open>
  \<^verbatim>\<open>updateModuleInfo\<close>. An element of the imported or accepted set is a URL (\<open>Inl\<close>) or
  a node (\<open>Inr\<close>). \<open>nextImports\<close> is the very set object stored in
  \<open>mod.importedModules\<close>, so the first loop writes to that field; \<open>prevImports\<close> is
  the old set, kept as a local value. \<open>noLongerImported\<close> stays \<open>None\<close> (undefined)
  until the first orphan is added. When \<^verbatim>\<open>ensureEntryFromUrl\<close> raises inside one of the two
  loops, the call ends there: the result is \<open>Inl\<close> of the error and of the graph as it
  has been written up to then, and the statements after the raise are not executed.
\<close>

definition resolveDep ::
  "ports \<Rightarrow> ModuleGraph \<Rightarrow> string + ref \<Rightarrow> bool option \<Rightarrow> error + (ModuleGraph \<times> ref)" where
  "resolveDep p g imported ssr =
     (case imported of Inl rawUrl \<Rightarrow> ensureEntryFromUrl p g rawUrl ssr | Inr n \<Rightarrow> Inr (g, n))"

fun importLoop ::
  "ports \<Rightarrow> ref \<Rightarrow> bool option \<Rightarrow> (string + ref) list \<Rightarrow> ModuleGraph \<Rightarrow>
   (error \<times> ModuleGraph) + ModuleGraph" where
  "importLoop p md ssr [] g = Inr g"
| "importLoop p md ssr (imported # rest) g =
     (case resolveDep p g imported ssr of
        Inl e \<Rightarrow> Inl (e, g)
      | Inr (g1, dep) \<Rightarrow>
          importLoop p md ssr rest
            (g1\<lparr>heap :=
                 modify md (\<lambda>n. n\<lparr>importedModules := set_add dep (importedModules n)\<rparr>)
                   (modify dep (\<lambda>n. n\<lparr>importers := set_add md (importers n)\<rparr>) (heap g1))\<rparr>))"

fun pruneLoop :: "ref \<Rightarrow> ref list \<Rightarrow> store \<times> ref list option \<Rightarrow> store \<times> ref list option" where
  "pruneLoop md [] st = st"
| "pruneLoop md (dep # rest) (h, noLongerImported) =
     pruneLoop md rest
       (if dep \<notin> set (importedModules (h ! md)) then
          (let h1 = modify dep (\<lambda>n. n\<lparr>importers := set_delete md (importers n)\<rparr>) h
           in if importers (h1 ! dep) = []
              then (h1, Some (set_add dep (case noLongerImported of None \<Rightarrow> [] | Some s \<Rightarrow> s)))
              else (h1, noLongerImported))
        else (h, noLongerImported))"

fun acceptLoop ::
  "ports \<Rightarrow> ref \<Rightarrow> bool option \<Rightarrow> (string + ref) list \<Rightarrow> ModuleGraph \<Rightarrow>
   (error \<times> ModuleGraph) + ModuleGraph" where
  "acceptLoop p md ssr [] g = Inr g"
| "acceptLoop p md ssr (accepted # rest) g =
     (case resolveDep p g accepted ssr of
        Inl e \<Rightarrow> Inl (e, g)
      | Inr (g1, dep) \<Rightarrow>
          acceptLoop p md ssr rest
            (g1\<lparr>heap :=
                 modify md (\<lambda>n. n\<lparr>acceptedHmrDeps := set_add dep (acceptedHmrDeps n)\<rparr>) (heap g1)\<rparr>))"

definition updateModuleInfo ::
  "ports \<Rightarrow> ModuleGraph \<Rightarrow> ref \<Rightarrow> (string + ref) list \<Rightarrow> (string + ref) list \<Rightarrow> bool \<Rightarrow>
   bool option \<Rightarrow> (error \<times> ModuleGraph) + (ModuleGraph \<times> ref list option)" where
  "updateModuleInfo p g md imported accepted selfAccepting ssr =
     (let h0 = modify md (\<lambda>n. n\<lparr>isSelfAccepting := selfAccepting\<rparr>) (heap g);
          prevImports = importedModules (h0 ! md);
          g0 = g\<lparr>heap := modify md (\<lambda>n. n\<lparr>importedModules := []\<rparr>) h0\<rparr>
      in case importLoop p md ssr imported g0 of
           Inl raised \<Rightarrow> Inl raised
         | Inr g1 \<Rightarrow>
             (let st = pruneLoop md prevImports (heap g1, None);
                  g2 = g1\<lparr>heap := modify md (\<lambda>n. n\<lparr>acceptedHmrDeps := []\<rparr>) (fst st)\<rparr>
              in case acceptLoop p md ssr accepted g2 of
                   Inl raised \<Rightarrow> Inl raised
                 | Inr g3 \<Rightarrow> Inr (g3, snd st)))"

section \<open>The update channel\<close>

text \<open>
  \<^verbatim>\<open>createWebSocketServer\<close> keeps the set \<open>wss.clients\<close> and the closure variable
  \<open>bufferedError\<close>. A client is its \<open>readyState\<close> and the strings sent to it so far.
  The payload type is declared in \<^verbatim>\<open>types/hmrPayload\<close>.
\<close>

text \<open>
  Modelled from the spec: the declaration of \<open>HMRPayload\<close> is missing; the spec lists the
  payloads \<open>connected\<close>, \<open>update\<close>, \<open>full-reload\<close>, \<open>prune\<close> and \<open>error\<close>, each
  tagged by its \<open>type\<close>.
\<close>

datatype HMRPayload =
  Connected
| Update "opaque list"
| FullReload "string option"
| Prune "string list"
| Error opaque

fun is_error :: "HMRPayload \<Rightarrow> bool" where
  "is_error (Error e) = True"
| "is_error other = False"

record client =
  readyState :: nat
  received :: "string list"

record wsServer =
  clients :: "client list"
  bufferedError :: "HMRPayload option"

definition socket_send :: "string \<Rightarrow> client \<Rightarrow> client" where
  "socket_send msg c = c\<lparr>received := received c @ [msg]\<rparr>"

text \<open>
  The handler of \<^verbatim>\<open>wss.on('connection')\<close>, applied to the socket of the event;
  \<open>stringify\<close> is \<^verbatim>\<open>JSON.stringify\<close>.
\<close>

definition on_connection ::
  "(HMRPayload \<Rightarrow> string) \<Rightarrow> client \<times> HMRPayload option \<Rightarrow> client \<times> HMRPayload option" where
  "on_connection stringify st =
     (let socket = socket_send (stringify Connected) (fst st)
      in case snd st of
           Some e \<Rightarrow> (socket_send (stringify e) socket, None)
         | None \<Rightarrow> (socket, None))"

text \<open>
  A new connection, as the \<^verbatim>\<open>ws\<close> library delivers it: an open socket (\<open>readyState\<close> 1)
  that the library adds to \<open>wss.clients\<close> before it emits the \<open>connection\<close> event.
\<close>

definition connect :: "(HMRPayload \<Rightarrow> string) \<Rightarrow> wsServer \<Rightarrow> wsServer" where
  "connect stringify ws =
     (let st = on_connection stringify (\<lparr>readyState = 1, received = []\<rparr>, bufferedError ws)
      in \<lparr>clients = clients ws @ [fst st], bufferedError = snd st\<rparr>)"

definition send :: "(HMRPayload \<Rightarrow> string) \<Rightarrow> wsServer \<Rightarrow> HMRPayload \<Rightarrow> wsServer" where
  "send stringify ws payload =
     (if is_error payload \<and> length (clients ws) = 0 then ws\<lparr>bufferedError := Some payload\<rparr>
      else (let stringified = stringify payload
            in ws\<lparr>clients :=
                    map (\<lambda>c. if readyState c = 1 then socket_send stringified c else c)
                      (clients ws)\<rparr>))"

text \<open>A stand-in for \<^verbatim>\<open>JSON.stringify\<close> in the examples: one string per payload.\<close>

fun render :: "HMRPayload \<Rightarrow> string" where
  "render Connected = ''connected''"
| "render (Update us) = ''update:'' @ concat us"
| "render (FullReload path) = ''full-reload:'' @ or_empty path"
| "render (Prune paths) = ''prune:'' @ concat paths"
| "render (Error e) = ''error:'' @ e"

section \<open>Concrete helpers for the examples\<close>

text \<open>
  The theorems below hold for every choice of \<open>ports\<close>. The examples run the operations
  with the following helpers.
\<close>

text \<open>
  Modelled from the spec: \<^verbatim>\<open>cleanUrl\<close> of \<^verbatim>\<open>../utils\<close> is missing; the spec describes a
  node's file as the resolved id with query and hash stripped. Everything from the first
  \<open>#\<close> on is dropped, then everything from the first \<open>?\<close> on.
\<close>

definition utils_cleanUrl :: "string \<Rightarrow> string" where
  "utils_cleanUrl u = takeWhile (\<lambda>c. c \<noteq> CHR ''?'') (takeWhile (\<lambda>c. c \<noteq> CHR ''#'') u)"

fun split_on :: "char \<Rightarrow> string \<Rightarrow> string list" where
  "split_on c [] = [[]]"
| "split_on c (x # xs) =
     (if x = c then [] # split_on c xs
      else (case split_on c xs of [] \<Rightarrow> [[x]] | w # ws \<Rightarrow> (x # w) # ws))"

definition join_with :: "char \<Rightarrow> string list \<Rightarrow> string" where
  "join_with c ws = (case ws of [] \<Rightarrow> [] | w # rest \<Rightarrow> w @ concat (map (\<lambda>v. c # v) rest))"

definition strip_params :: "(string \<Rightarrow> bool) \<Rightarrow> string \<Rightarrow> string" where
  "strip_params drop_it u =
     (if CHR ''?'' \<notin> set u then u
      else (let base = takeWhile (\<lambda>c. c \<noteq> CHR ''?'') u;
                params = filter (\<lambda>q. \<not> drop_it q) (split_on CHR ''&'' (drop (Suc (length base)) u))
            in if params = [] then base else base @ CHR ''?'' # join_with CHR ''&'' params))"

text \<open>
  Modelled from the spec: \<^verbatim>\<open>removeTimestampQuery\<close> and \<^verbatim>\<open>removeImportQuery\<close> of
  \<^verbatim>\<open>../utils\<close> are missing; the spec says that they strip the HMR timestamp query
  (\<^verbatim>\<open>?t=xxxx\<close>) and the internal import marker. The query parameter \<open>t=\<close>digits,
  respectively \<open>import\<close>, is removed, and the \<open>?\<close> with it when no parameter is left.
\<close>

definition is_digit :: "char \<Rightarrow> bool" where
  "is_digit c = (c \<in> set ''0123456789'')"

definition utils_removeTimestampQuery :: "string \<Rightarrow> string" where
  "utils_removeTimestampQuery =
     strip_params (\<lambda>q. take 2 q = ''t='' \<and> drop 2 q \<noteq> [] \<and> list_all is_digit (drop 2 q))"

definition utils_removeImportQuery :: "string \<Rightarrow> string" where
  "utils_removeImportQuery = strip_params (\<lambda>q. q = ''import'' \<or> q = ''import='')"

text \<open>
  \<^verbatim>\<open>path.extname\<close> of Node.js (POSIX): a scan from the last character to the first that
  skips trailing slashes, stops at the slash before the last path component, and records
  the last dot of that component. \<open>extname_loop path k s\<close> is the loop at index \<open>k - 1\<close>.
\<close>

record extname_state =
  startDot :: int
  startPart :: int
  end' :: int
  matchedSlash :: bool
  preDotState :: int

fun extname_loop :: "string \<Rightarrow> nat \<Rightarrow> extname_state \<Rightarrow> extname_state" where
  "extname_loop path 0 s = s"
| "extname_loop path (Suc i) s =
     (if path ! i = CHR ''/'' then
        (if \<not> matchedSlash s then s\<lparr>startPart := int i + 1\<rparr> else extname_loop path i s)
      else
        (let s1 = (if end' s = - 1 then s\<lparr>matchedSlash := False, end' := int i + 1\<rparr> else s);
             s2 = (if path ! i = CHR ''.'' then
                     (if startDot s1 = - 1 then s1\<lparr>startDot := int i\<rparr>
                      else if preDotState s1 \<noteq> 1 then s1\<lparr>preDotState := 1\<rparr> else s1)
                   else if startDot s1 \<noteq> - 1 then s1\<lparr>preDotState := - 1\<rparr> else s1)
         in extname_loop path i s2))"

definition path_extname :: "string \<Rightarrow> string" where
  "path_extname path =
     (let s = extname_loop path (length path)
                \<lparr>startDot = - 1, startPart = 0, end' = - 1, matchedSlash = True, preDotState = 0\<rparr>
      in if startDot s = - 1 \<or> end' s = - 1 \<or> preDotState s = 0 \<or>
            (preDotState s = 1 \<and> startDot s = end' s - 1 \<and> startDot s = startPart s + 1)
         then []
         else take (nat (end' s - startDot s)) (drop (nat (startDot s)) path))"

text \<open>
  \<^verbatim>\<open>url.parse\<close> of Node.js on a URL that is a path with an optional query and hash, with
  no white space at its ends. A URL with a space in it is not a simple path for
  \<^verbatim>\<open>url.parse\<close>, which then escapes the space as \<^verbatim>\<open>%20\<close> before it cuts the URL; of the
  characters that \<^verbatim>\<open>url.parse\<close> escapes only the space is modelled. The hash starts at
  the first \<open>#\<close>, the search at the first \<open>?\<close> before it, the pathname is the rest, and
  an empty part is \<open>null\<close>.
\<close>

definition nonempty :: "string \<Rightarrow> string option" where
  "nonempty s = (if s = [] then None else Some s)"

definition autoEscapeStr :: "string \<Rightarrow> string" where
  "autoEscapeStr u = concat (map (\<lambda>c. if c = CHR '' '' then ''%20'' else [c]) u)"

definition url_parse :: "string \<Rightarrow> UrlParts" where
  "url_parse u =
     (let escaped = autoEscapeStr u;
          rest = takeWhile (\<lambda>c. c \<noteq> CHR ''#'') escaped;
          pn = takeWhile (\<lambda>c. c \<noteq> CHR ''?'') rest
      in \<lparr>pathname = nonempty pn,
          search = nonempty (drop (length pn) rest),
          hash = nonempty (drop (length rest) escaped)\<rparr>)"

text \<open>
  Stand-ins for \<^verbatim>\<open>normalizePath\<close>, \<^verbatim>\<open>FS_PREFIX\<close> and \<^verbatim>\<open>isDirectCSSRequest\<close>, which are
  missing too: the examples pass normalised paths, which \<^verbatim>\<open>normalizePath\<close> returns as
  they are; the file-system prefix is \<^verbatim>\<open>/@fs/\<close>; a direct CSS request is a \<open>.css\<close> URL
  with the query parameter \<open>direct\<close>.
\<close>

definition css_direct :: "string \<Rightarrow> bool" where
  "css_direct u =
     (suffix ''.css'' (utils_cleanUrl u) \<and>
      ''direct'' \<in> set (split_on CHR ''&'' (drop (Suc (length (takeWhile (\<lambda>c. c \<noteq> CHR ''?'') u))) u)))"

definition node_ports :: "(string \<Rightarrow> bool \<Rightarrow> PartialResolvedId option) \<Rightarrow> ports" where
  "node_ports resolver =
     \<lparr>resolveId = resolver,
      removeTimestampQuery = utils_removeTimestampQuery,
      removeImportQuery = utils_removeImportQuery,
      cleanUrl = utils_cleanUrl,
      normalizePath = (\<lambda>f. f),
      FS_PREFIX = ''/@fs/'',
      isDirectCSSRequest = css_direct,
      extname = path_extname,
      parseUrl = url_parse\<rparr>"


definition root_resolver :: "string \<Rightarrow> bool \<Rightarrow> PartialResolvedId option" where
  "root_resolver u ssr =
     (if take 5 u = ''/@fs/''
      then Some \<lparr>resolved_id = (if take 1 (drop 5 u) = ''/'' then drop 5 u else drop 4 u),
                  resolved_meta = None\<rparr>
      else if utils_cleanUrl u \<in> {''/foo'', ''/foo.css''}
      then Some \<lparr>resolved_id = ''/root/foo.css'', resolved_meta = None\<rparr>
      else if take 1 u = ''/'' then Some \<lparr>resolved_id = ''/root'' @ u, resolved_meta = None\<rparr>
      else if take 1 u = ''?'' then Some \<lparr>resolved_id = ''/root/index.js'' @ u, resolved_meta = None\<rparr>
      else None)"

text \<open>A node with the field initialisers of the class, of type \<open>js\<close>.\<close>

definition plain_node :: "string \<Rightarrow> string option \<Rightarrow> string option \<Rightarrow> ModuleNode" where
  "plain_node u i f =
     \<lparr>url = u, id' = i, file' = f, type' = Js, info = None, meta = None, importers = [],
      importedModules = [], acceptedHmrDeps = [], isSelfAccepting = False,
      transformResult = None, ssrTransformResult = None, ssrModule = None,
      lastHMRTimestamp = 0\<rparr>"

text \<open>
  The cycle of the spec: \<open>a\<close> imports \<open>b\<close>, \<open>b\<close> imports \<open>c\<close>, \<open>c\<close> imports \<open>a\<close>
  (nodes 0, 1, 2), every node with cached transform results and an SSR module.
\<close>

definition cycle_heap :: store where
  "cycle_heap =
     [(plain_node ''/a.js'' (Some ''/root/a.js'') (Some ''/root/a.js''))
        \<lparr>importers := [2], importedModules := [1], transformResult := Some ''code a'',
         ssrTransformResult := Some ''ssr code a'', ssrModule := Some ''instance a''\<rparr>,
      (plain_node ''/b.js'' (Some ''/root/b.js'') (Some ''/root/b.js''))
        \<lparr>importers := [0], importedModules := [2], transformResult := Some ''code b'',
         ssrTransformResult := Some ''ssr code b'', ssrModule := Some ''instance b''\<rparr>,
      (plain_node ''/c.js'' (Some ''/root/c.js'') (Some ''/root/c.js''))
        \<lparr>importers := [1], importedModules := [0], transformResult := Some ''code c'',
         ssrTransformResult := Some ''ssr code c'', ssrModule := Some ''instance c''\<rparr>]"

definition cycle_graph :: ModuleGraph where
  "cycle_graph =
     \<lparr>heap = cycle_heap,
      urlToModuleMap = [(''/a.js'', 0), (''/b.js'', 1), (''/c.js'', 2)],
      idToModuleMap = [(''/root/a.js'', 0), (''/root/b.js'', 1), (''/root/c.js'', 2)],
      fileToModulesMap = [(''/root/a.js'', [0]), (''/root/b.js'', [1]), (''/root/c.js'', [2])],
      safeModulesPath = []\<rparr>"

text \<open>
  Graphs after \<^verbatim>\<open>ensureEntryFromUrl('/foo?x y')\<close> on the empty graph, and after
  \<^verbatim>\<open>ensureEntryFromUrl('/foo.css?x y')\<close> on that graph.
\<close>

definition graph_foo :: ModuleGraph where
  "graph_foo =
     \<lparr>heap = [plain_node ''/foo.css?x%20y'' (Some ''/root/foo.css'') (Some ''/root/foo.css'')],
      urlToModuleMap = [(''/foo.css?x%20y'', 0)], idToModuleMap = [(''/root/foo.css'', 0)],
      fileToModulesMap = [(''/root/foo.css'', [0])], safeModulesPath = []\<rparr>"

definition graph_foo_css :: ModuleGraph where
  "graph_foo_css =
     \<lparr>heap = [plain_node ''/foo.css?x%20y'' (Some ''/root/foo.css'') (Some ''/root/foo.css''),
              plain_node ''/foo.css?x y'' (Some ''/root/foo.css'') (Some ''/root/foo.css'')],
      urlToModuleMap = [(''/foo.css?x%20y'', 0), (''/foo.css?x y'', 1)],
      idToModuleMap = [(''/root/foo.css'', 1)],
      fileToModulesMap = [(''/root/foo.css'', [0, 1])], safeModulesPath = []\<rparr>"

text \<open>
  Graphs of the examples: \<open>graph_main\<close> after \<^verbatim>\<open>ensureEntryFromUrl('/main.js')\<close> on the
  empty graph; \<open>graph_imports\<close> after \<open>main\<close> was updated to import \<^verbatim>\<open>/util.js\<close> and
  \<^verbatim>\<open>/lib.js\<close>; \<open>graph_pruned\<close> after it was updated again to import \<^verbatim>\<open>/util.js\<close>
  only; \<open>graph_self\<close> after \<open>main\<close> was updated to import itself and \<^verbatim>\<open>/util.js\<close>;
  \<open>graph_alias\<close> after the file of \<open>main\<close> was also requested under the file-system
  prefix; \<open>graph_partial\<close> after \<^verbatim>\<open>createFileOnlyEntry('/src/partial.css')\<close> on the
  empty graph, \<open>graph_partial_url\<close> after the URL of that node was requested, and
  \<open>graph_partial_self\<close> after that node was updated to import its own URL.
\<close>

definition graph_main :: ModuleGraph where
  "graph_main =
     \<lparr>heap = [plain_node ''/main.js'' (Some ''/root/main.js'') (Some ''/root/main.js'')],
      urlToModuleMap = [(''/main.js'', 0)], idToModuleMap = [(''/root/main.js'', 0)],
      fileToModulesMap = [(''/root/main.js'', [0])], safeModulesPath = []\<rparr>"

definition graph_imports :: ModuleGraph where
  "graph_imports =
     \<lparr>heap = [(plain_node ''/main.js'' (Some ''/root/main.js'') (Some ''/root/main.js''))
                 \<lparr>importedModules := [1, 2]\<rparr>,
              (plain_node ''/util.js'' (Some ''/root/util.js'') (Some ''/root/util.js''))
                 \<lparr>importers := [0]\<rparr>,
              (plain_node ''/lib.js'' (Some ''/root/lib.js'') (Some ''/root/lib.js''))
                 \<lparr>importers := [0]\<rparr>],
      urlToModuleMap = [(''/main.js'', 0), (''/util.js'', 1), (''/lib.js'', 2)],
      idToModuleMap = [(''/root/main.js'', 0), (''/root/util.js'', 1), (''/root/lib.js'', 2)],
      fileToModulesMap = [(''/root/main.js'', [0]), (''/root/util.js'', [1]), (''/root/lib.js'', [2])],
      safeModulesPath = []\<rparr>"

definition graph_pruned :: ModuleGraph where
  "graph_pruned =
     graph_imports\<lparr>heap :=
       [(plain_node ''/main.js'' (Some ''/root/main.js'') (Some ''/root/main.js''))
          \<lparr>importedModules := [1]\<rparr>,
        (plain_node ''/util.js'' (Some ''/root/util.js'') (Some ''/root/util.js''))
          \<lparr>importers := [0]\<rparr>,
        plain_node ''/lib.js'' (Some ''/root/lib.js'') (Some ''/root/lib.js'')]\<rparr>"

definition graph_self :: ModuleGraph where
  "graph_self =
     \<lparr>heap = [(plain_node ''/main.js'' (Some ''/root/main.js'') (Some ''/root/main.js''))
                 \<lparr>importers := [0], importedModules := [0, 1], isSelfAccepting := True\<rparr>,
              (plain_node ''/util.js'' (Some ''/root/util.js'') (Some ''/root/util.js''))
                 \<lparr>importers := [0]\<rparr>],
      urlToModuleMap = [(''/main.js'', 0), (''/util.js'', 1)],
      idToModuleMap = [(''/root/main.js'', 0), (''/root/util.js'', 1)],
      fileToModulesMap = [(''/root/main.js'', [0]), (''/root/util.js'', [1])],
      safeModulesPath = []\<rparr>"

definition graph_alias :: ModuleGraph where
  "graph_alias =
     \<lparr>heap = [plain_node ''/main.js'' (Some ''/root/main.js'') (Some ''/root/main.js''),
              plain_node ''/@fs/root/main.js'' (Some ''/root/main.js'') (Some ''/root/main.js'')],
      urlToModuleMap = [(''/main.js'', 0), (''/@fs/root/main.js'', 1)],
      idToModuleMap = [(''/root/main.js'', 1)],
      fileToModulesMap = [(''/root/main.js'', [0, 1])], safeModulesPath = []\<rparr>"

definition graph_partial :: ModuleGraph where
  "graph_partial =
     \<lparr>heap = [plain_node ''/@fs//src/partial.css'' None (Some ''/src/partial.css'')],
      urlToModuleMap = [], idToModuleMap = [],
      fileToModulesMap = [(''/src/partial.css'', [0])], safeModulesPath = []\<rparr>"

definition graph_partial_url :: ModuleGraph where
  "graph_partial_url =
     \<lparr>heap = [plain_node ''/@fs//src/partial.css'' None (Some ''/src/partial.css''),
              plain_node ''/@fs//src/partial.css'' (Some ''/src/partial.css'') (Some ''/src/partial.css'')],
      urlToModuleMap = [(''/@fs//src/partial.css'', 1)],
      idToModuleMap = [(''/src/partial.css'', 1)],
      fileToModulesMap = [(''/src/partial.css'', [0, 1])], safeModulesPath = []\<rparr>"

definition graph_partial_self :: ModuleGraph where
  "graph_partial_self =
     graph_partial_url\<lparr>heap :=
       [(plain_node ''/@fs//src/partial.css'' None (Some ''/src/partial.css''))
          \<lparr>importedModules := [1]\<rparr>,
        (plain_node ''/@fs//src/partial.css'' (Some ''/src/partial.css'') (Some ''/src/partial.css''))
          \<lparr>importers := [0]\<rparr>]\<rparr>"

text \<open>
  The graph that \<^verbatim>\<open>updateModuleInfo(main, {'/util.js', '?x'})\<close> leaves when it is called
  on \<open>graph_imports\<close> and raises for \<^verbatim>\<open>?x\<close>: the import set of \<open>main\<close> was replaced and
  \<^verbatim>\<open>/util.js\<close> added again, the loop over the previous imports was not reached.
\<close>

definition graph_raised :: ModuleGraph where
  "graph_raised =
     \<lparr>heap = [(plain_node ''/main.js'' (Some ''/root/main.js'') (Some ''/root/main.js''))\<lparr>importedModules := [1]\<rparr>,
              (plain_node ''/util.js'' (Some ''/root/util.js'') (Some ''/root/util.js''))\<lparr>importers := [0]\<rparr>,
              (plain_node ''/lib.js'' (Some ''/root/lib.js'') (Some ''/root/lib.js''))\<lparr>importers := [0]\<rparr>],
      urlToModuleMap = [(''/main.js'', 0), (''/util.js'', 1), (''/lib.js'', 2)],
      idToModuleMap = [(''/root/main.js'', 0), (''/root/util.js'', 1), (''/root/lib.js'', 2)],
      fileToModulesMap = [(''/root/main.js'', [0]), (''/root/util.js'', [1]), (''/root/lib.js'', [2])],
      safeModulesPath = []\<rparr>"

section \<open>Well-formed states\<close>

text \<open>
  A JavaScript reference always names an allocated object. In the model this is a property
  of the state: every reference held by an index is below the length of the store.
\<close>

definition index_allocated :: "ModuleGraph \<Rightarrow> bool" where
  "index_allocated g =
     ((\<forall>(u, r) \<in> set (urlToModuleMap g). r < length (heap g)) \<and>
      (\<forall>(i, r) \<in> set (idToModuleMap g). r < length (heap g)) \<and>
      (\<forall>(f, ms) \<in> set (fileToModulesMap g). \<forall>r \<in> set ms. r < length (heap g)))"

text \<open>
  \<open>imports_of\<close> and \<open>importers_of\<close> read the two edge sets of a reference, empty when
  the reference names no node. \<open>edge_symmetric\<close> is the symmetry of the edge sets over
  the allocated nodes; \<open>edges_balanced\<close> says the same for all references, so that it also
  excludes an edge to a reference that names no node.
\<close>

definition imports_of :: "store \<Rightarrow> ref \<Rightarrow> ref set" where
  "imports_of h r = (if r < length h then set (importedModules (h ! r)) else {})"

definition importers_of :: "store \<Rightarrow> ref \<Rightarrow> ref set" where
  "importers_of h r = (if r < length h then set (importers (h ! r)) else {})"

definition edges_balanced :: "store \<Rightarrow> bool" where
  "edges_balanced h \<longleftrightarrow> (\<forall>a b. a \<in> imports_of h b \<longleftrightarrow> b \<in> importers_of h a)"

definition edge_symmetric :: "store \<Rightarrow> bool" where
  "edge_symmetric h \<longleftrightarrow>
     (\<forall>a < length h. \<forall>b < length h.
        a \<in> set (importedModules (h ! b)) \<longleftrightarrow> b \<in> set (importers (h ! a)))"

text \<open>
  \<open>index_consistent\<close>: every entry of the URL index is an allocated node with that
  url; every entry of the id index is an allocated node with that id; every member of a
  set of the file index is an allocated node with that file; every allocated node is in
  the file index under its file; and every allocated node that has an id (the nodes
  made by \<open>ensureEntryFromUrl\<close>) is the entry of the URL index under its url, and its id
  is a key of the id index.
\<close>

definition index_consistent :: "ModuleGraph \<Rightarrow> bool" where
  "index_consistent g \<longleftrightarrow>
     (\<forall>u r. map_of (urlToModuleMap g) u = Some r \<longrightarrow> r < length (heap g) \<and> url (heap g ! r) = u) \<and>
     (\<forall>i r. map_of (idToModuleMap g) i = Some r \<longrightarrow> r < length (heap g) \<and> id' (heap g ! r) = Some i) \<and>
     (\<forall>f ms r. map_of (fileToModulesMap g) f = Some ms \<longrightarrow> r \<in> set ms \<longrightarrow>
        r < length (heap g) \<and> file' (heap g ! r) = Some f) \<and>
     (\<forall>r < length (heap g).
        (\<exists>f ms. file' (heap g ! r) = Some f \<and> map_of (fileToModulesMap g) f = Some ms \<and> r \<in> set ms) \<and>
        (\<forall>i. id' (heap g ! r) = Some i \<longrightarrow>
           map_of (urlToModuleMap g) (url (heap g ! r)) = Some r \<and>
           (\<exists>k. map_of (idToModuleMap g) i = Some k)))"

text \<open>
  \<open>index_origin\<close>: every entry of the URL index is an allocated node that has an id, which
  only the nodes made by \<open>ensureEntryFromUrl\<close> have; and the entry of the id index under
  an id is, of the allocated nodes with that id, the one with the greatest reference.
  References are given out in the order in which the nodes are made, so this is the node
  with that id that was made last.
\<close>

definition index_origin :: "ModuleGraph \<Rightarrow> bool" where
  "index_origin g \<longleftrightarrow>
     (\<forall>u r. map_of (urlToModuleMap g) u = Some r \<longrightarrow>
        r < length (heap g) \<and> id' (heap g ! r) \<noteq> None) \<and>
     (\<forall>i r. map_of (idToModuleMap g) i = Some r \<longrightarrow>
        (\<forall>k < length (heap g). id' (heap g ! k) = Some i \<longrightarrow> k \<le> r))"

text \<open>
  \<open>idents\<close> lists the fields the indices are built from. \<open>orphan_set\<close> reads the
  value returned by \<open>updateModuleInfo\<close> as a set, \<open>undefined\<close> as the empty set.
  \<open>import_origin\<close> says where a member of the fresh import set comes from: it was
  passed as a node, or a URL that was passed has a canonical URL that the URL index maps
  to it or it was created for such a URL during the call.
\<close>

definition idents :: "store \<Rightarrow> (string \<times> string option \<times> string option) list" where
  "idents h = map (\<lambda>n. (url n, id' n, file' n)) h"

definition orphan_set :: "ref list option \<Rightarrow> ref set" where
  "orphan_set ret = (case ret of None \<Rightarrow> {} | Some s \<Rightarrow> set s)"

definition import_origin ::
  "ports \<Rightarrow> bool option \<Rightarrow> ModuleGraph \<Rightarrow> (string + ref) list \<Rightarrow> ref \<Rightarrow> bool" where
  "import_origin p ssr g xs d \<longleftrightarrow>
     Inr d \<in> set xs \<or>
     (\<exists>raw u rid m. Inl raw \<in> set xs \<and> resolveUrl p raw ssr = Inr (u, rid, m) \<and>
        (map_of (urlToModuleMap g) u = Some d \<or> length (heap g) \<le> d))"

text \<open>
  The states the graph operations reach from the empty graph, one call after the other.
  \<open>updateModuleInfo\<close> is called with a node of the store, and the nodes in its two sets
  are nodes of the store. In \<open>reachable\<close> a step is a call that returns, or an
  \<open>updateModuleInfo\<close> that raises for one of the accepted URLs (every imported URL
  resolves, so the raise comes after the loop over the previous imports). In
  \<open>attainable\<close> every \<open>updateModuleInfo\<close> that raises is a step as well, with the graph
  it leaves. \<open>index_inv\<close> collects the three properties of the indices.
\<close>

definition graph_inv :: "ModuleGraph \<Rightarrow> bool" where
  "graph_inv g \<longleftrightarrow> edges_balanced (heap g) \<and> index_allocated g \<and> index_consistent g"

inductive reachable :: "ports \<Rightarrow> ModuleGraph \<Rightarrow> bool" for p :: ports where
  initial: "reachable p empty_graph"
| ensureEntry:
    "reachable p g \<Longrightarrow> ensureEntryFromUrl p g rawUrl ssr = Inr (g', n) \<Longrightarrow> reachable p g'"
| fileOnlyEntry:
    "reachable p g \<Longrightarrow> createFileOnlyEntry p g f = (g', n) \<Longrightarrow> reachable p g'"
| updateInfo:
    "reachable p g \<Longrightarrow> md < length (heap g) \<Longrightarrow>
     \<forall>n. Inr n \<in> set imported \<longrightarrow> n < length (heap g) \<Longrightarrow>
     \<forall>n. Inr n \<in> set accepted \<longrightarrow> n < length (heap g) \<Longrightarrow>
     updateModuleInfo p g md imported accepted selfAccepting ssr = Inr (g', orphans) \<Longrightarrow>
     reachable p g'"
| updateRaised:
    "reachable p g \<Longrightarrow> md < length (heap g) \<Longrightarrow>
     \<forall>n. Inr n \<in> set imported \<longrightarrow> n < length (heap g) \<Longrightarrow>
     \<forall>n. Inr n \<in> set accepted \<longrightarrow> n < length (heap g) \<Longrightarrow>
     \<forall>raw. Inl raw \<in> set imported \<longrightarrow> resolveUrl p raw ssr \<noteq> Inl TypeError \<Longrightarrow>
     updateModuleInfo p g md imported accepted selfAccepting ssr = Inl (e, g') \<Longrightarrow>
     reachable p g'"
| invalidate:
    "reachable p g \<Longrightarrow> reachable p (g\<lparr>heap := fst (invalidateModule md (heap g, seen, visits))\<rparr>)"
| invalidateEvery:
    "reachable p g \<Longrightarrow> reachable p (fst (invalidateAll g))"
| fileChange:
    "reachable p g \<Longrightarrow> reachable p (fst (onFileChange g f))"

inductive attainable :: "ports \<Rightarrow> ModuleGraph \<Rightarrow> bool" for p :: ports where
  initial: "attainable p empty_graph"
| ensureEntry:
    "attainable p g \<Longrightarrow> ensureEntryFromUrl p g rawUrl ssr = Inr (g', n) \<Longrightarrow> attainable p g'"
| fileOnlyEntry:
    "attainable p g \<Longrightarrow> createFileOnlyEntry p g f = (g', n) \<Longrightarrow> attainable p g'"
| updateInfo:
    "attainable p g \<Longrightarrow> md < length (heap g) \<Longrightarrow>
     \<forall>n. Inr n \<in> set imported \<longrightarrow> n < length (heap g) \<Longrightarrow>
     \<forall>n. Inr n \<in> set accepted \<longrightarrow> n < length (heap g) \<Longrightarrow>
     updateModuleInfo p g md imported accepted selfAccepting ssr = Inr (g', orphans) \<Longrightarrow>
     attainable p g'"
| updateRaised:
    "attainable p g \<Longrightarrow> md < length (heap g) \<Longrightarrow>
     \<forall>n. Inr n \<in> set imported \<longrightarrow> n < length (heap g) \<Longrightarrow>
     \<forall>n. Inr n \<in> set accepted \<longrightarrow> n < length (heap g) \<Longrightarrow>
     updateModuleInfo p g md imported accepted selfAccepting ssr = Inl (e, g') \<Longrightarrow>
     attainable p g'"
| invalidate:
    "attainable p g \<Longrightarrow> attainable p (g\<lparr>heap := fst (invalidateModule md (heap g, seen, visits))\<rparr>)"
| invalidateEvery:
    "attainable p g \<Longrightarrow> attainable p (fst (invalidateAll g))"
| fileChange:
    "attainable p g \<Longrightarrow> attainable p (fst (onFileChange g f))"

definition index_inv :: "ModuleGraph \<Rightarrow> bool" where
  "index_inv g \<longleftrightarrow> index_allocated g \<and> index_consistent g \<and> index_origin g"


section \<open>Vocabulary of the cascade\<close>

text \<open>
  \<open>importer_edges h\<close> has the pair \<open>(a, b)\<close> when \<open>b\<close> is an importer of \<open>a\<close>, both
  allocated. \<open>cascade_post st st'\<close> relates the traversal state before and after a
  cascade: the store keeps its length, \<open>seen\<close> and the log are extended by the same new,
  pairwise different allocated nodes, and exactly these nodes have \<open>ssrModule\<close>
  cleared, nothing else changed. \<open>clear_own\<close> is what \<open>invalidateModule\<close> does to the
  node itself. \<open>swept h mods st\<close> describes the traversal state \<open>st\<close> after the nodes
  \<open>mods\<close> were invalidated one after the other under one shared \<open>seen\<close>, starting from
  the store \<open>h\<close> with \<open>seen\<close> and the log empty.
\<close>

definition importer_edges :: "store \<Rightarrow> (ref \<times> ref) set" where
  "importer_edges h = {(a, b). a < length h \<and> b < length h \<and> b \<in> set (importers (h ! a))}"

definition cascade_post :: "traversal \<Rightarrow> traversal \<Rightarrow> bool" where
  "cascade_post st st' \<longleftrightarrow>
     length (fst st') = length (fst st) \<and>
     (\<exists>new. fst (snd st') = fst (snd st) @ new \<and> snd (snd st') = snd (snd st) @ new \<and>
        distinct new \<and> set new \<inter> set (fst (snd st)) = {} \<and>
        (\<forall>r \<in> set new. r < length (fst st)) \<and>
        (\<forall>r < length (fst st).
           fst st' ! r = (if r \<in> set new then (fst st ! r)\<lparr>ssrModule := None\<rparr> else fst st ! r)))"

definition clear_own :: "ModuleNode \<Rightarrow> ModuleNode" where
  "clear_own n = n\<lparr>info := None, transformResult := None, ssrTransformResult := None\<rparr>"

definition swept :: "store \<Rightarrow> ref list \<Rightarrow> traversal \<Rightarrow> bool" where
  "swept h mods st \<longleftrightarrow>
     length (fst st) = length h \<and> importer_edges (fst st) = importer_edges h \<and>
     snd (snd st) = fst (snd st) \<and> distinct (fst (snd st)) \<and>
     set (fst (snd st)) = {r. \<exists>m \<in> set mods. m < length h \<and> (m, r) \<in> (importer_edges h)\<^sup>*} \<and>
     (\<forall>r < length h.
        fst st ! r =
          (if r \<in> set mods then (clear_own (h ! r))\<lparr>ssrModule := None\<rparr>
           else if r \<in> set (fst (snd st)) then (h ! r)\<lparr>ssrModule := None\<rparr>
           else h ! r))"

section \<open>Termination of the invalidation cascade\<close>

text \<open>
  Every recursive call of \<open>invalidateSSRModule\<close> that goes past the guard adds an allocated
  node to \<open>seen\<close>, so the number of allocated nodes outside \<open>seen\<close> decreases; the store
  keeps its length and \<open>seen\<close> only grows.
\<close>

lemma length_modify [simp]: "length (modify r f h) = length h"
  by (simp add: modify_def)

lemma set_set_add [simp]: "set (set_add x xs) = insert x (set xs)"
  by (auto simp: set_add_def)

lemma invalidateSSRModule_dom_grows:
  "invalidateSSRModule_forEach_importer_dom (Inl (md, st)) \<Longrightarrow>
     length (fst (invalidateSSRModule md st)) = length (fst st) \<and>
     set (fst (snd st)) \<subseteq> set (fst (snd (invalidateSSRModule md st)))"
  "invalidateSSRModule_forEach_importer_dom (Inr (xs, st)) \<Longrightarrow>
     length (fst (forEach_importer xs st)) = length (fst st) \<and>
     set (fst (snd st)) \<subseteq> set (fst (snd (forEach_importer xs st)))"
proof (induction md st and xs st rule: invalidateSSRModule_forEach_importer.pinduct)
  case (1 md h seen visits)
  then show ?case
    by (auto simp: invalidateSSRModule.psimps)
next
  case (2 st)
  then show ?case by (simp add: forEach_importer.psimps)
next
  case (3 importer rest st)
  then show ?case
    by (auto simp: forEach_importer.psimps)
qed

definition unseen :: "traversal \<Rightarrow> nat" where
  "unseen st = card ({r. r < length (fst st)} - set (fst (snd st)))"

termination invalidateSSRModule
proof (relation "inv_image (less_than <*lex*> less_than)
         (\<lambda>x. case x of Inl (md, st) \<Rightarrow> (unseen st, 0)
                      | Inr (xs, st) \<Rightarrow> (unseen st, Suc (length xs)))", goal_cases)
  case 1
  show ?case by (intro wf_inv_image wf_lex_prod wf_less_than)
next
  case (2 md h seen visits)
  then have "md \<in> {r. r < length h} - set seen" by simp
  then have "card ({r. r < length h} - set seen - {md}) < card ({r. r < length h} - set seen)"
    by (intro card_Diff1_less) auto
  moreover have "{r. r < length h} - insert md (set seen) = {r. r < length h} - set seen - {md}"
    by auto
  ultimately show ?case by (simp add: unseen_def)
next
  case (3 importer rest st)
  show ?case by simp
next
  case (4 importer rest st)
  from invalidateSSRModule_dom_grows(1)[OF 4]
  have "unseen (invalidateSSRModule importer st) \<le> unseen st"
    unfolding unseen_def by (intro card_mono) auto
  then show ?case by auto
qed

declare invalidateSSRModule.simps [simp del]

section \<open>The update channel: buffered errors\<close>

text \<open>
  Claim C6, as amended. With no client in \<open>wss.clients\<close>, \<open>send\<close> of an error payload
  only stores it in \<open>bufferedError\<close>, whatever was buffered before. The next connection
  receives the \<open>connected\<close> message and then the buffered error, and the buffer is
  empty afterwards. The connection after that receives the \<open>connected\<close> message only.
\<close>

theorem buffered_error_delivery:
  assumes "is_error e" and "clients ws = []"
  shows "send js ws e = ws\<lparr>bufferedError := Some e\<rparr> \<and>
         clients (connect js (send js ws e)) = [\<lparr>readyState = 1, received = [js Connected, js e]\<rparr>] \<and>
         bufferedError (connect js (send js ws e)) = None \<and>
         clients (connect js (connect js (send js ws e))) =
           [\<lparr>readyState = 1, received = [js Connected, js e]\<rparr>,
            \<lparr>readyState = 1, received = [js Connected]\<rparr>] \<and>
         bufferedError (connect js (connect js (send js ws e))) = None"
  using assms by (simp add: send_def connect_def on_connection_def socket_send_def)

theorem buffered_error_delivery_witness:
  "is_error (Error ''boom'') \<and> clients \<lparr>clients = [], bufferedError = Some (Error ''old'')\<rparr> = [] \<and>
   send render \<lparr>clients = [], bufferedError = Some (Error ''old'')\<rparr> (Error ''boom'') =
     \<lparr>clients = [], bufferedError = Some (Error ''boom'')\<rparr> \<and>
   clients (connect render (connect render
     (send render \<lparr>clients = [], bufferedError = Some (Error ''old'')\<rparr> (Error ''boom'')))) =
     [\<lparr>readyState = 1, received = [''connected'', ''error:boom'']\<rparr>,
      \<lparr>readyState = 1, received = [''connected'']\<rparr>]"
proof -
  have h1: "is_error (Error ''boom'')" by simp
  have h2: "clients \<lparr>clients = [], bufferedError = Some (Error ''old'')\<rparr> = []" by simp
  note inst = buffered_error_delivery [OF h1 h2, of render]
  from inst have a: "send render \<lparr>clients = [], bufferedError = Some (Error ''old'')\<rparr> (Error ''boom'') =
     \<lparr>clients = [], bufferedError = Some (Error ''old'')\<rparr>\<lparr>bufferedError := Some (Error ''boom'')\<rparr>"
    by (rule conjunct1)
  from inst have b: "clients (connect render (connect render
     (send render \<lparr>clients = [], bufferedError = Some (Error ''old'')\<rparr> (Error ''boom'')))) =
     [\<lparr>readyState = 1, received = [render Connected, render (Error ''boom'')]\<rparr>,
      \<lparr>readyState = 1, received = [render Connected]\<rparr>]"
    by blast
  show ?thesis
    by (subst b, subst a) simp
qed

text \<open>
  The claim as stated says that the second connection receives neither message; the
  handler sends \<open>connected\<close> to every connection.
\<close>

theorem second_connection_counterexample:
  "received (last (clients (connect render (connect render
      (send render \<lparr>clients = [], bufferedError = None\<rparr> (Error ''boom'')))))) = [''connected''] \<and>
   \<not> received (last (clients (connect render (connect render
      (send render \<lparr>clients = [], bufferedError = None\<rparr> (Error ''boom'')))))) = []"
  by (simp add: send_def connect_def on_connection_def socket_send_def)

section \<open>URL resolution and entry creation\<close>

lemma ensureEntryFromUrl_registers:
  assumes "resolveUrl p rawUrl ssr = Inr (u, rid, m)"
  shows "\<exists>g' r. ensureEntryFromUrl p g rawUrl ssr = Inr (g', r) \<and> map_of (urlToModuleMap g') u = Some r"
  using assms
  by (cases "map_of (urlToModuleMap g) u") (simp_all add: ensureEntryFromUrl_def Let_def update_conv')





lemma find_store_append:
  assumes "\<forall>m \<in> set ms. m < length h"
  shows "find (\<lambda>m. P ((h @ [n]) ! m)) ms = find (\<lambda>m. P (h ! m)) ms"
  using assms by (intro find_cong) (auto simp: nth_append)

text \<open>
  Claim C9. \<open>ensureEntryFromUrl\<close> called again with the same raw URL on the graph it
  returned gives the same node and leaves the graph, so all three indices, as it is. So
  does \<open>createFileOnlyEntry\<close> called again with the same file.
\<close>

theorem idempotent_entry_creation:
  "(ensureEntryFromUrl p g rawUrl ssr = Inr (g1, n) \<longrightarrow>
      ensureEntryFromUrl p g1 rawUrl ssr = Inr (g1, n)) \<and>
   (index_allocated g \<longrightarrow> createFileOnlyEntry p g f = (g2, k) \<longrightarrow>
      createFileOnlyEntry p g2 f = (g2, k))"
proof (intro conjI impI)
  assume e: "ensureEntryFromUrl p g rawUrl ssr = Inr (g1, n)"
  then obtain u rid m where r: "resolveUrl p rawUrl ssr = Inr (u, rid, m)"
    by (auto simp: ensureEntryFromUrl_def split: sum.splits)
  from ensureEntryFromUrl_registers [OF r, of g] e
  have "map_of (urlToModuleMap g1) u = Some n" by auto
  with r show "ensureEntryFromUrl p g1 rawUrl ssr = Inr (g1, n)"
    by (simp add: ensureEntryFromUrl_def)
next
  assume alloc: "index_allocated g" and c: "createFileOnlyEntry p g f = (g2, k)"
  let ?f = "normalizePath p f"
  let ?u = "FS_PREFIX p @ ?f"
  let ?P = "\<lambda>h m. url (h ! m) = ?u \<or> id' (h ! m) = Some ?f"
  show "createFileOnlyEntry p g2 f = (g2, k)"
  proof (cases "map_of (fileToModulesMap g) ?f")
    case None
    with c show ?thesis
      by (auto simp: createFileOnlyEntry_def Let_def update_conv' set_add_def new_ModuleNode_def)
  next
    case (Some ms)
    then have "(?f, ms) \<in> set (fileToModulesMap g)" by (rule map_of_SomeD)
    with alloc have ms: "\<forall>m \<in> set ms. m < length (heap g)"
      by (auto simp: index_allocated_def)
    show ?thesis
    proof (cases "find (?P (heap g)) ms")
      case (Some m)
      with c \<open>map_of (fileToModulesMap g) ?f = Some ms\<close> show ?thesis
        by (auto simp: createFileOnlyEntry_def Let_def)
    next
      case None
      let ?n = "(new_ModuleNode p ?u)\<lparr>file' := Some ?f\<rparr>"
      have fresh: "length (heap g) \<notin> set ms" using ms by auto
      have "find (?P (heap g @ [?n])) ms = None"
        using find_store_append [OF ms, of "\<lambda>x. url x = ?u \<or> id' x = Some ?f" ?n] None by simp
      then have "find (?P (heap g @ [?n])) (ms @ [length (heap g)]) = Some (length (heap g))"
        by (induction ms) (auto simp: new_ModuleNode_def)
      with c None fresh \<open>map_of (fileToModulesMap g) ?f = Some ms\<close> show ?thesis
        by (auto simp: createFileOnlyEntry_def Let_def update_conv' set_add_def)
    qed
  qed
qed


theorem idempotent_entry_creation_witness:
  "ensureEntryFromUrl (node_ports root_resolver) empty_graph ''/main.js'' None =
     Inr (\<lparr>heap = [plain_node ''/main.js'' (Some ''/root/main.js'') (Some ''/root/main.js'')],
           urlToModuleMap = [(''/main.js'', 0)], idToModuleMap = [(''/root/main.js'', 0)],
           fileToModulesMap = [(''/root/main.js'', [0])], safeModulesPath = []\<rparr>, 0) \<and>
   ensureEntryFromUrl (node_ports root_resolver)
     \<lparr>heap = [plain_node ''/main.js'' (Some ''/root/main.js'') (Some ''/root/main.js'')],
      urlToModuleMap = [(''/main.js'', 0)], idToModuleMap = [(''/root/main.js'', 0)],
      fileToModulesMap = [(''/root/main.js'', [0])], safeModulesPath = []\<rparr> ''/main.js'' None =
     Inr (\<lparr>heap = [plain_node ''/main.js'' (Some ''/root/main.js'') (Some ''/root/main.js'')],
           urlToModuleMap = [(''/main.js'', 0)], idToModuleMap = [(''/root/main.js'', 0)],
           fileToModulesMap = [(''/root/main.js'', [0])], safeModulesPath = []\<rparr>, 0) \<and>
   index_allocated empty_graph \<and>
   createFileOnlyEntry (node_ports root_resolver) empty_graph ''/src/partial.css'' =
     (\<lparr>heap = [plain_node ''/@fs//src/partial.css'' None (Some ''/src/partial.css'')],
       urlToModuleMap = [], idToModuleMap = [],
       fileToModulesMap = [(''/src/partial.css'', [0])], safeModulesPath = []\<rparr>, 0) \<and>
   createFileOnlyEntry (node_ports root_resolver)
     \<lparr>heap = [plain_node ''/@fs//src/partial.css'' None (Some ''/src/partial.css'')],
      urlToModuleMap = [], idToModuleMap = [],
      fileToModulesMap = [(''/src/partial.css'', [0])], safeModulesPath = []\<rparr> ''/src/partial.css'' =
     (\<lparr>heap = [plain_node ''/@fs//src/partial.css'' None (Some ''/src/partial.css'')],
       urlToModuleMap = [], idToModuleMap = [],
       fileToModulesMap = [(''/src/partial.css'', [0])], safeModulesPath = []\<rparr>, 0)"
proof -
  let ?p = "node_ports root_resolver"
  let ?g1 = "\<lparr>heap = [plain_node ''/main.js'' (Some ''/root/main.js'') (Some ''/root/main.js'')],
           urlToModuleMap = [(''/main.js'', 0)], idToModuleMap = [(''/root/main.js'', 0)],
           fileToModulesMap = [(''/root/main.js'', [0])], safeModulesPath = []\<rparr>"
  let ?g2 = "\<lparr>heap = [plain_node ''/@fs//src/partial.css'' None (Some ''/src/partial.css'')],
       urlToModuleMap = [], idToModuleMap = [],
       fileToModulesMap = [(''/src/partial.css'', [0])], safeModulesPath = []\<rparr>"
  have e: "ensureEntryFromUrl ?p empty_graph ''/main.js'' None = Inr (?g1, 0)"
    by code_simp
  have a: "index_allocated empty_graph"
    by (simp add: index_allocated_def empty_graph_def)
  have c: "createFileOnlyEntry ?p empty_graph ''/src/partial.css'' = (?g2, 0)"
    by code_simp
  note inst = idempotent_entry_creation [of ?p empty_graph "''/main.js''" None ?g1 0 "''/src/partial.css''" ?g2 0]
  have e2: "ensureEntryFromUrl ?p ?g1 ''/main.js'' None = Inr (?g1, 0)"
    by (rule mp [OF conjunct1 [OF inst] e])
  have c2: "createFileOnlyEntry ?p ?g2 ''/src/partial.css'' = (?g2, 0)"
    by (rule mp [OF mp [OF conjunct2 [OF inst] a] c])
  show ?thesis
    by (intro conjI e e2 a c c2)
qed

lemma ensureEntryFromUrl_found:
  assumes "resolveUrl p rawUrl ssr = Inr (u, rid, m)" and "map_of (urlToModuleMap g) u = Some n"
  shows "ensureEntryFromUrl p g rawUrl ssr = Inr (g, n)"
  using assms by (simp add: ensureEntryFromUrl_def)

text \<open>
  Claim C7. The comment on \<^verbatim>\<open>resolveUrl\<close> says that the extension is resolved so that
  URLs with or without extension all map to the same module. For the URL without the
  extension \<open>resolveUrl\<close> builds the canonical URL from the parts that \<^verbatim>\<open>url.parse\<close>
  returns, in which a space is escaped; the URL with the extension it returns as it was
  passed. With a resolver that maps \<^verbatim>\<open>/foo?x y\<close> and \<^verbatim>\<open>/foo.css?x y\<close> to the same
  resolved id \<^verbatim>\<open>/root/foo.css\<close>, the two spellings have different canonical URLs,
  \<open>ensureEntryFromUrl\<close> makes two nodes, and after the first spelling was entered
  \<open>getModuleByUrl\<close> does not find the node for the second.
\<close>

theorem url_canonicalization_divergence:
  "resolveId (node_ports root_resolver) ''/foo?x y'' False =
     Some \<lparr>resolved_id = ''/root/foo.css'', resolved_meta = None\<rparr> \<and>
   resolveId (node_ports root_resolver) ''/foo.css?x y'' False =
     Some \<lparr>resolved_id = ''/root/foo.css'', resolved_meta = None\<rparr> \<and>
   resolveUrl (node_ports root_resolver) ''/foo?x y'' None =
     Inr (''/foo.css?x%20y'', ''/root/foo.css'', None) \<and>
   resolveUrl (node_ports root_resolver) ''/foo.css?x y'' None =
     Inr (''/foo.css?x y'', ''/root/foo.css'', None) \<and>
   ensureEntryFromUrl (node_ports root_resolver) empty_graph ''/foo?x y'' None = Inr (graph_foo, 0) \<and>
   ensureEntryFromUrl (node_ports root_resolver) graph_foo ''/foo.css?x y'' None = Inr (graph_foo_css, 1) \<and>
   getModuleByUrl (node_ports root_resolver) graph_foo ''/foo.css?x y'' None = Inr None"
  by code_simp


section \<open>The invalidation cascade\<close>

lemma nth_modify: "modify r f h ! k = (if k = r \<and> r < length h then f (h ! r) else h ! k)"
  by (cases "r < length h") (auto simp: modify_def nth_list_update list_update_beyond)

lemma cascade_post_refl: "cascade_post st st"
  unfolding cascade_post_def by (intro conjI exI [of _ "[]"]) simp_all

lemma cascade_post_trans:
  assumes "cascade_post st st1" and "cascade_post st1 st2"
  shows "cascade_post st st2"
proof -
  from assms(1) obtain n1 where 1: "length (fst st1) = length (fst st)"
    "fst (snd st1) = fst (snd st) @ n1" "snd (snd st1) = snd (snd st) @ n1"
    "distinct n1" "set n1 \<inter> set (fst (snd st)) = {}" "\<forall>r \<in> set n1. r < length (fst st)"
    "\<forall>r < length (fst st). fst st1 ! r = (if r \<in> set n1 then (fst st ! r)\<lparr>ssrModule := None\<rparr> else fst st ! r)"
    unfolding cascade_post_def by blast
  from assms(2) obtain n2 where 2: "length (fst st2) = length (fst st1)"
    "fst (snd st2) = fst (snd st1) @ n2" "snd (snd st2) = snd (snd st1) @ n2"
    "distinct n2" "set n2 \<inter> set (fst (snd st1)) = {}" "\<forall>r \<in> set n2. r < length (fst st1)"
    "\<forall>r < length (fst st1). fst st2 ! r = (if r \<in> set n2 then (fst st1 ! r)\<lparr>ssrModule := None\<rparr> else fst st1 ! r)"
    unfolding cascade_post_def by blast
  have "fst (snd st2) = fst (snd st) @ (n1 @ n2)" using 1(2) 2(2) by simp
  moreover have "snd (snd st2) = snd (snd st) @ (n1 @ n2)" using 1(3) 2(3) by simp
  moreover have "distinct (n1 @ n2)" using 1(2,4) 2(4,5) by auto
  moreover have "set (n1 @ n2) \<inter> set (fst (snd st)) = {}" using 1(2,5) 2(5) by auto
  moreover have "\<forall>r \<in> set (n1 @ n2). r < length (fst st)" using 1(1,6) 2(6) by auto
  moreover have "\<forall>r < length (fst st).
      fst st2 ! r = (if r \<in> set (n1 @ n2) then (fst st ! r)\<lparr>ssrModule := None\<rparr> else fst st ! r)"
    using 1(1,2,7) 2(5,7) by auto
  ultimately show ?thesis
    unfolding cascade_post_def using 1(1) 2(1) by (intro conjI exI [of _ "n1 @ n2"]) simp_all
qed

lemma cascade_post_step:
  assumes "md \<notin> set seen" and "md < length h"
  shows "cascade_post (h, seen, visits)
           (modify md (\<lambda>n. n\<lparr>ssrModule := None\<rparr>) h, set_add md seen, visits @ [md])"
  unfolding cascade_post_def using assms
  by (intro conjI exI [of _ "[md]"]) (simp_all add: set_add_def nth_modify)

lemma cascade_post_both:
  "cascade_post st (invalidateSSRModule md st)"
  "cascade_post st (forEach_importer xs st)"
proof (induction md st and xs st rule: invalidateSSRModule_forEach_importer.induct)
  case (1 md h seen visits)
  show ?case
  proof (cases "md \<in> set seen \<or> \<not> md < length h")
    case True
    then show ?thesis by (simp add: invalidateSSRModule.simps cascade_post_refl)
  next
    case False
    with 1 cascade_post_step [of md seen h visits] show ?thesis
      by (auto simp: invalidateSSRModule.simps intro: cascade_post_trans)
  qed
next
  case (2 st)
  show ?case by (simp add: cascade_post_refl)
next
  case (3 importer rest st)
  then show ?case by (auto intro: cascade_post_trans)
qed


lemma cascade_post_mono: "cascade_post st st' \<Longrightarrow> set (fst (snd st)) \<subseteq> set (fst (snd st'))"
  unfolding cascade_post_def by auto

lemma cascade_post_length: "cascade_post st st' \<Longrightarrow> length (fst st') = length (fst st)"
  unfolding cascade_post_def by auto

lemma cascade_post_edges:
  assumes "cascade_post st st'"
  shows "importer_edges (fst st') = importer_edges (fst st)"
proof -
  from assms have "length (fst st') = length (fst st)"
    and "\<forall>r < length (fst st). importers (fst st' ! r) = importers (fst st ! r)"
    unfolding cascade_post_def by auto
  then show ?thesis unfolding importer_edges_def by auto
qed

lemma importer_edges_modify:
  assumes "\<And>n. importers (f n) = importers n"
  shows "importer_edges (modify md f h) = importer_edges h"
  unfolding importer_edges_def using assms by (auto simp: nth_modify split: if_splits)

lemma cascade_closure_both:
  "(md < length (fst st) \<longrightarrow> md \<in> set (fst (snd (invalidateSSRModule md st)))) \<and>
   (\<forall>a \<in> set (fst (snd (invalidateSSRModule md st))) - set (fst (snd st)).
      md < length (fst st) \<and> (md, a) \<in> (importer_edges (fst st))\<^sup>* \<and>
      (\<forall>b. (a, b) \<in> importer_edges (fst st) \<longrightarrow> b \<in> set (fst (snd (invalidateSSRModule md st)))))"
  "(\<forall>x \<in> set xs. x < length (fst st) \<longrightarrow> x \<in> set (fst (snd (forEach_importer xs st)))) \<and>
   (\<forall>a \<in> set (fst (snd (forEach_importer xs st))) - set (fst (snd st)).
      (\<exists>x \<in> set xs. x < length (fst st) \<and> (x, a) \<in> (importer_edges (fst st))\<^sup>*) \<and>
      (\<forall>b. (a, b) \<in> importer_edges (fst st) \<longrightarrow> b \<in> set (fst (snd (forEach_importer xs st)))))"
proof (induction md st and xs st rule: invalidateSSRModule_forEach_importer.induct)
  case (1 md h seen visits)
  show ?case
  proof (cases "md \<in> set seen \<or> \<not> md < length h")
    case True
    then have "invalidateSSRModule md (h, seen, visits) = (h, seen, visits)"
      by (simp add: invalidateSSRModule.simps)
    with True show ?thesis by auto
  next
    case False
    define h1 where "h1 = modify md (\<lambda>n. n\<lparr>ssrModule := None\<rparr>) h"
    define st' where "st' = forEach_importer (importers (h ! md)) (h1, set_add md seen, visits @ [md])"
    have eq: "invalidateSSRModule md (h, seen, visits) = st'"
      using False by (simp add: invalidateSSRModule.simps st'_def h1_def)
    have E1: "importer_edges h1 = importer_edges h"
      unfolding h1_def by (simp add: importer_edges_modify)
    have L1: "length h1 = length h" unfolding h1_def by simp
    have "cascade_post (h1, set_add md seen, visits @ [md]) st'"
      unfolding st'_def by (rule cascade_post_both(2))
    from cascade_post_mono [OF this] have mono: "insert md (set seen) \<subseteq> set (fst (snd st'))"
      by simp
    have IH: "(\<forall>x \<in> set (importers (h ! md)). x < length h \<longrightarrow> x \<in> set (fst (snd st'))) \<and>
      (\<forall>a \<in> set (fst (snd st')) - insert md (set seen).
              (\<exists>x \<in> set (importers (h ! md)). x < length h \<and> (x, a) \<in> (importer_edges h)\<^sup>*) \<and>
              (\<forall>b. (a, b) \<in> importer_edges h \<longrightarrow> b \<in> set (fst (snd st'))))"
      using 1 [OF False] unfolding st'_def h1_def
      by (simp only: fst_conv snd_conv length_modify E1 [unfolded h1_def] set_set_add)
    note IHa = conjunct1 [OF IH] and IHb = conjunct2 [OF IH]
    have inr: "md < length h" using False by simp
    have "(md, a) \<in> (importer_edges h)\<^sup>* \<and>
          (\<forall>b. (a, b) \<in> importer_edges h \<longrightarrow> b \<in> set (fst (snd st')))"
      if a: "a \<in> set (fst (snd st')) - set seen" for a
    proof (cases "a = md")
      case True
      have "b \<in> set (fst (snd st'))" if "(md, b) \<in> importer_edges h" for b
      proof -
        from that have "b \<in> set (importers (h ! md))" "b < length h"
          by (simp_all add: importer_edges_def)
        with IHa show ?thesis by blast
      qed
      with True show ?thesis by blast
    next
      case False
      with a have "a \<in> set (fst (snd st')) - insert md (set seen)" by blast
      with IHb obtain x where x: "x \<in> set (importers (h ! md))" "x < length h"
        "(x, a) \<in> (importer_edges h)\<^sup>*"
        and cl: "\<forall>b. (a, b) \<in> importer_edges h \<longrightarrow> b \<in> set (fst (snd st'))"
        by blast
      from x(1,2) inr have "(md, x) \<in> importer_edges h"
        by (simp add: importer_edges_def)
      then have "(md, a) \<in> (importer_edges h)\<^sup>*" using x(3) by (rule converse_rtrancl_into_rtrancl)
      with cl show ?thesis by blast
    qed
    with mono inr show ?thesis unfolding eq by simp
  qed
next
  case (2 st)
  show ?case by simp
next
  case (3 importer rest st)
  define st1 where "st1 = invalidateSSRModule importer st"
  define st' where "st' = forEach_importer rest st1"
  have eq: "forEach_importer (importer # rest) st = st'" by (simp add: st'_def st1_def)
  have p1: "cascade_post st st1" unfolding st1_def by (rule cascade_post_both(1))
  have p2: "cascade_post st1 st'" unfolding st'_def by (rule cascade_post_both(2))
  note E1 = cascade_post_edges [OF p1]
  note L1 = cascade_post_length [OF p1]
  note m1 = cascade_post_mono [OF p1]
  note m2 = cascade_post_mono [OF p2]
  from 3(1) have
    IH1a: "importer < length (fst st) \<longrightarrow> importer \<in> set (fst (snd st1))" and
    IH1b: "\<forall>a \<in> set (fst (snd st1)) - set (fst (snd st)).
      importer < length (fst st) \<and> (importer, a) \<in> (importer_edges (fst st))\<^sup>* \<and>
      (\<forall>b. (a, b) \<in> importer_edges (fst st) \<longrightarrow> b \<in> set (fst (snd st1)))"
    unfolding st1_def [symmetric] by blast+
  from 3(2) have
    IH2a: "\<forall>x \<in> set rest. x < length (fst st) \<longrightarrow> x \<in> set (fst (snd st'))" and
    IH2b: "\<forall>a \<in> set (fst (snd st')) - set (fst (snd st1)).
      (\<exists>x \<in> set rest. x < length (fst st) \<and> (x, a) \<in> (importer_edges (fst st))\<^sup>*) \<and>
      (\<forall>b. (a, b) \<in> importer_edges (fst st) \<longrightarrow> b \<in> set (fst (snd st')))"
    unfolding st1_def [symmetric] st'_def [symmetric] E1 L1 by blast+
  have members: "\<forall>x \<in> set (importer # rest). x < length (fst st) \<longrightarrow> x \<in> set (fst (snd st'))"
    using IH1a IH2a m2 by auto
  have "(\<exists>x \<in> set (importer # rest). x < length (fst st) \<and> (x, a) \<in> (importer_edges (fst st))\<^sup>*) \<and>
        (\<forall>b. (a, b) \<in> importer_edges (fst st) \<longrightarrow> b \<in> set (fst (snd st')))"
    if a: "a \<in> set (fst (snd st')) - set (fst (snd st))" for a
  proof (cases "a \<in> set (fst (snd st1))")
    case True
    with a have "a \<in> set (fst (snd st1)) - set (fst (snd st))" by blast
    with IH1b have "importer < length (fst st)" "(importer, a) \<in> (importer_edges (fst st))\<^sup>*"
      "\<forall>b. (a, b) \<in> importer_edges (fst st) \<longrightarrow> b \<in> set (fst (snd st1))" by blast+
    with m2 show ?thesis by (simp add: subset_iff)
  next
    case False
    with a have "a \<in> set (fst (snd st')) - set (fst (snd st1))" by blast
    with IH2b have "\<exists>x \<in> set rest. x < length (fst st) \<and> (x, a) \<in> (importer_edges (fst st))\<^sup>*"
      "\<forall>b. (a, b) \<in> importer_edges (fst st) \<longrightarrow> b \<in> set (fst (snd st'))" by blast+
    then show ?thesis by simp
  qed
  with members show ?case unfolding eq by blast
qed

lemma cascade_post_new:
  assumes "cascade_post st st'"
  shows "distinct (fst (snd st)) \<longrightarrow> distinct (fst (snd st'))"
    and "\<forall>r < length (fst st). fst st' ! r =
           (if r \<in> set (fst (snd st')) - set (fst (snd st)) then (fst st ! r)\<lparr>ssrModule := None\<rparr>
            else fst st ! r)"
    and "\<forall>r \<in> set (fst (snd st')) - set (fst (snd st)). r < length (fst st)"
    and "\<exists>new. fst (snd st') = fst (snd st) @ new \<and> snd (snd st') = snd (snd st) @ new \<and>
           distinct new \<and> set new = set (fst (snd st')) - set (fst (snd st))"
proof -
  from assms obtain new where n: "fst (snd st') = fst (snd st) @ new"
    "distinct new" "set new \<inter> set (fst (snd st)) = {}"
    "\<forall>r \<in> set new. r < length (fst st)"
    "\<forall>r < length (fst st). fst st' ! r = (if r \<in> set new then (fst st ! r)\<lparr>ssrModule := None\<rparr> else fst st ! r)"
    "snd (snd st') = snd (snd st) @ new"
    unfolding cascade_post_def by blast
  from n(1,3) have eq: "set (fst (snd st')) - set (fst (snd st)) = set new" by auto
  show "distinct (fst (snd st)) \<longrightarrow> distinct (fst (snd st'))" using n(1,2,3) by auto
  show "\<forall>r < length (fst st). fst st' ! r =
           (if r \<in> set (fst (snd st')) - set (fst (snd st)) then (fst st ! r)\<lparr>ssrModule := None\<rparr>
            else fst st ! r)"
    unfolding eq using n(5) .
  show "\<forall>r \<in> set (fst (snd st')) - set (fst (snd st)). r < length (fst st)"
    unfolding eq using n(4) .
  show "\<exists>new. fst (snd st') = fst (snd st) @ new \<and> snd (snd st') = snd (snd st) @ new \<and>
           distinct new \<and> set new = set (fst (snd st')) - set (fst (snd st))"
    unfolding eq using n(1,6,2) by blast
qed

lemma invalidateSSRModule_reach:
  assumes "md < length h"
  shows "set (fst (snd (invalidateSSRModule md (h, [], visits)))) = {r. (md, r) \<in> (importer_edges h)\<^sup>*}"
proof -
  let ?S = "set (fst (snd (invalidateSSRModule md (h, [], visits))))"
  note c = cascade_closure_both(1) [of md "(h, [], visits)", simplified]
  from c assms have start: "md \<in> ?S" by blast
  from c have closed: "\<And>a b. a \<in> ?S \<Longrightarrow> (a, b) \<in> importer_edges h \<Longrightarrow> b \<in> ?S" by blast
  have "r \<in> ?S" if "(md, r) \<in> (importer_edges h)\<^sup>*" for r
    using that by (induction rule: rtrancl_induct) (auto intro: start closed)
  moreover from c have "\<And>r. r \<in> ?S \<Longrightarrow> (md, r) \<in> (importer_edges h)\<^sup>*" by blast
  ultimately show ?thesis by blast
qed

lemma invalidateModule_unfold:
  "invalidateModule md (h, seen, visits) = invalidateSSRModule md (modify md clear_own h, seen, visits)"
proof -
  have "clear_own = (\<lambda>n. n\<lparr>info := None, transformResult := None, ssrTransformResult := None\<rparr>)"
    by (rule ext) (simp add: clear_own_def)
  then show ?thesis by (simp add: invalidateModule_def)
qed

lemma importer_edges_clear_own [simp]: "importer_edges (modify md clear_own h) = importer_edges h"
  by (rule importer_edges_modify) (simp add: clear_own_def)

lemma invalidateModule_post:
  "cascade_post (modify md clear_own h, seen, visits) (invalidateModule md (h, seen, visits))"
  unfolding invalidateModule_unfold by (rule cascade_post_both(1))

lemma invalidateModule_member:
  assumes "md < length h"
  shows "md \<in> set (fst (snd (invalidateModule md (h, seen, visits))))"
  using cascade_closure_both(1) [of md "(modify md clear_own h, seen, visits)"] assms
  by (simp add: invalidateModule_unfold)

lemma invalidateModule_log:
  "\<exists>new. fst (snd (invalidateModule md (h, seen, visits))) = seen @ new \<and>
         snd (snd (invalidateModule md (h, seen, visits))) = visits @ new \<and>
         distinct new \<and>
         set new = set (fst (snd (invalidateModule md (h, seen, visits)))) - set seen"
  using cascade_post_new(4) [OF invalidateModule_post, of md h seen visits] by simp

lemma invalidateModule_closure:
  "\<forall>a \<in> set (fst (snd (invalidateModule md (h, seen, visits)))) - set seen.
      md < length h \<and> (md, a) \<in> (importer_edges h)\<^sup>* \<and>
      (\<forall>b. (a, b) \<in> importer_edges h \<longrightarrow> b \<in> set (fst (snd (invalidateModule md (h, seen, visits)))))"
  using cascade_closure_both(1) [of md "(modify md clear_own h, seen, visits)"]
  by (simp add: invalidateModule_unfold)

lemma invalidateModule_nth:
  assumes "r < length h"
  shows "fst (invalidateModule md (h, seen, visits)) ! r =
      (if r \<in> set (fst (snd (invalidateModule md (h, seen, visits)))) - set seen
       then (modify md clear_own h ! r)\<lparr>ssrModule := None\<rparr>
       else modify md clear_own h ! r)"
  using cascade_post_new(2) [OF invalidateModule_post, of md h seen visits] assms by simp

lemma clear_own_ssr:
  "clear_own (n\<lparr>ssrModule := None\<rparr>) = (clear_own n)\<lparr>ssrModule := None\<rparr>"
  "clear_own (clear_own n) = clear_own n"
  by (simp_all add: clear_own_def)

lemma swept_start: "swept h [] (h, [], [])"
  by (simp add: swept_def)

lemma swept_step:
  assumes sw: "swept h mods st"
  shows "swept h (mods @ [md]) (invalidateModule md st)"
proof -
  obtain h1 seen visits where st: "st = (h1, seen, visits)" by (cases st) auto
  let ?E = "importer_edges h"
  let ?st' = "invalidateModule md (h1, seen, visits)"
  from sw have len1: "length h1 = length h" and edges1: "importer_edges h1 = ?E"
    and log1: "visits = seen" and dist1: "distinct seen"
    and seen1: "set seen = {r. \<exists>m \<in> set mods. m < length h \<and> (m, r) \<in> ?E\<^sup>*}"
    and heap1: "\<forall>r < length h. h1 ! r =
          (if r \<in> set mods then (clear_own (h ! r))\<lparr>ssrModule := None\<rparr>
           else if r \<in> set seen then (h ! r)\<lparr>ssrModule := None\<rparr> else h ! r)"
    unfolding swept_def st by simp_all
  note post = invalidateModule_post [of md h1 seen visits]
  from invalidateModule_log [of md h1 seen visits] obtain new where
    new: "fst (snd ?st') = seen @ new" "snd (snd ?st') = visits @ new" "distinct new"
      "set new = set (fst (snd ?st')) - set seen"
    by (elim exE conjE)
  have set': "set (fst (snd ?st')) = set seen \<union> set new" using new(1) by simp
  have disj: "set new \<inter> set seen = {}" using new(4) by blast
  have len': "length (fst ?st') = length h"
    using cascade_post_length [OF post] len1 by simp
  have edges': "importer_edges (fst ?st') = ?E"
    using cascade_post_edges [OF post] edges1 by simp
  have log': "snd (snd ?st') = fst (snd ?st')" using new(1,2) log1 by simp
  have dist': "distinct (fst (snd ?st'))" using new(1,3) dist1 disj by auto
  note cl = invalidateModule_closure [of md h1 seen visits, unfolded edges1 len1]
  have closed_seen: "b \<in> set seen" if "a \<in> set seen" "(a, b) \<in> ?E" for a b
  proof -
    from that(1) seen1 obtain m where "m \<in> set mods" "m < length h" "(m, a) \<in> ?E\<^sup>*" by blast
    with that(2) have "m \<in> set mods \<and> m < length h \<and> (m, b) \<in> ?E\<^sup>*" by auto
    with seen1 show ?thesis by blast
  qed
  have closed: "b \<in> set seen \<union> set new" if "a \<in> set seen \<union> set new" "(a, b) \<in> ?E" for a b
  proof (cases "a \<in> set seen")
    case True
    with that(2) closed_seen show ?thesis by blast
  next
    case False
    with that(1) new(4) have "a \<in> set (fst (snd ?st')) - set seen" by blast
    with cl that(2) have "b \<in> set (fst (snd ?st'))" by blast
    with set' show ?thesis by simp
  qed
  have own: "md \<in> set seen \<union> set new" if "md < length h"
    using invalidateModule_member [of md h1 seen visits] that len1 set' by simp
  have reach: "r \<in> set seen \<union> set new" if "md < length h" "(md, r) \<in> ?E\<^sup>*" for r
    using that(2)
  proof (induction rule: rtrancl_induct)
    case base
    show ?case by (rule own [OF that(1)])
  next
    case (step y z)
    from step(3) step(2) show ?case by (rule closed)
  qed
  have origin: "md < length h \<and> (md, r) \<in> ?E\<^sup>*" if "r \<in> set new" for r
    using cl that new(4) by blast
  have seen': "set (fst (snd ?st')) =
      {r. \<exists>m \<in> set (mods @ [md]). m < length h \<and> (m, r) \<in> ?E\<^sup>*}"
  proof (intro set_eqI iffI)
    fix r assume "r \<in> set (fst (snd ?st'))"
    then have "r \<in> set seen \<or> r \<in> set new" using set' by simp
    then show "r \<in> {r. \<exists>m \<in> set (mods @ [md]). m < length h \<and> (m, r) \<in> ?E\<^sup>*}"
    proof
      assume "r \<in> set seen"
      with seen1 show ?thesis by auto
    next
      assume "r \<in> set new"
      from origin [OF this] show ?thesis by auto
    qed
  next
    fix r assume "r \<in> {r. \<exists>m \<in> set (mods @ [md]). m < length h \<and> (m, r) \<in> ?E\<^sup>*}"
    then obtain m where m: "m \<in> set mods \<or> m = md" "m < length h" "(m, r) \<in> ?E\<^sup>*" by auto
    from m(1) have "r \<in> set seen \<union> set new"
    proof
      assume "m \<in> set mods"
      with m(2,3) seen1 show ?thesis by blast
    next
      assume "m = md"
      with m(2,3) reach show ?thesis by blast
    qed
    with set' show "r \<in> set (fst (snd ?st'))" by simp
  qed
  have mods_seen: "r \<in> set seen" if "r \<in> set mods" "r < length h" for r
    using seen1 that by blast
  have heap': "fst ?st' ! r =
          (if r \<in> set (mods @ [md]) then (clear_own (h ! r))\<lparr>ssrModule := None\<rparr>
           else if r \<in> set (fst (snd ?st')) then (h ! r)\<lparr>ssrModule := None\<rparr> else h ! r)"
    if r: "r < length h" for r
  proof -
    from r len1 have r1: "r < length h1" by simp
    have nth: "fst ?st' ! r =
        (if r \<in> set new then (modify md clear_own h1 ! r)\<lparr>ssrModule := None\<rparr>
         else modify md clear_own h1 ! r)"
      unfolding new(4) by (rule invalidateModule_nth [OF r1])
    note old = heap1 [rule_format, OF r]
    show ?thesis
    proof (cases "r = md")
      case True
      have at: "modify md clear_own h1 ! r = clear_own (h1 ! r)"
        using True r1 by (simp add: nth_modify)
      show ?thesis
      proof (cases "r \<in> set seen")
        case True
        then have "r \<notin> set new" using disj by blast
        with nth at have "fst ?st' ! r = clear_own (h1 ! r)" by simp
        also have "\<dots> = (clear_own (h ! r))\<lparr>ssrModule := None\<rparr>"
          using old True by (simp add: clear_own_ssr)
        finally show ?thesis using \<open>r = md\<close> by simp
      next
        case False
        with own r \<open>r = md\<close> have "r \<in> set new" by blast
        with nth at have "fst ?st' ! r = (clear_own (h1 ! r))\<lparr>ssrModule := None\<rparr>" by simp
        moreover have "r \<notin> set mods" using False mods_seen r by blast
        ultimately show ?thesis using old False \<open>r = md\<close> by simp
      qed
    next
      case False
      then have at: "modify md clear_own h1 ! r = h1 ! r" by (simp add: nth_modify)
      show ?thesis
      proof (cases "r \<in> set new")
        case True
        then have ns: "r \<notin> set seen" using disj by blast
        then have "r \<notin> set mods" using mods_seen r by blast
        with nth at True old ns False set' show ?thesis by simp
      next
        case new': False
        with nth at have "fst ?st' ! r = h1 ! r" by simp
        with old False new' set' show ?thesis by simp
      qed
    qed
  qed
  show ?thesis
    unfolding swept_def st
    by (intro conjI allI impI len' edges' log' dist' seen' heap')
qed

lemma swept_fold:
  "swept h mods st \<Longrightarrow> swept h (mods @ ms) (fold invalidateModule ms st)"
proof (induction ms arbitrary: mods st)
  case Nil
  then show ?case by simp
next
  case (Cons m ms)
  from Cons.IH [OF swept_step [OF Cons.prems, of m]] show ?case by simp
qed

lemma swept_all: "swept h ms (fold invalidateModule ms (h, [], []))"
  using swept_fold [OF swept_start, of h ms] by simp

lemma cycle_heap_invalidate:
  "invalidateModule 0 (cycle_heap, [], []) =
     ([(cycle_heap ! 0)\<lparr>info := None, transformResult := None, ssrTransformResult := None, ssrModule := None\<rparr>,
       (cycle_heap ! 1)\<lparr>ssrModule := None\<rparr>,
       (cycle_heap ! 2)\<lparr>ssrModule := None\<rparr>], [0, 2, 1], [0, 2, 1])"
  by code_simp

lemma swept_result:
  fixes h ms
  defines "st \<equiv> fold invalidateModule ms (h, [], [])"
  shows "length (fst st) = length h"
    and "distinct (snd (snd st))"
    and "set (snd (snd st)) = {r. \<exists>m \<in> set ms. m < length h \<and> (m, r) \<in> (importer_edges h)\<^sup>*}"
    and "\<forall>r < length h.
        fst st ! r =
          (if r \<in> set ms then (clear_own (h ! r))\<lparr>ssrModule := None\<rparr>
           else if r \<in> set (snd (snd st)) then (h ! r)\<lparr>ssrModule := None\<rparr>
           else h ! r)"
proof -
  have sw: "swept h ms st" unfolding st_def by (rule swept_all)
  then have log: "snd (snd st) = fst (snd st)" unfolding swept_def by (elim conjE)
  from sw show "length (fst st) = length h" unfolding swept_def by (elim conjE)
  from sw show "distinct (snd (snd st))" unfolding swept_def log by (elim conjE)
  from sw show "set (snd (snd st)) = {r. \<exists>m \<in> set ms. m < length h \<and> (m, r) \<in> (importer_edges h)\<^sup>*}"
    unfolding swept_def log by (elim conjE)
  from sw show "\<forall>r < length h.
        fst st ! r =
          (if r \<in> set ms then (clear_own (h ! r))\<lparr>ssrModule := None\<rparr>
           else if r \<in> set (snd (snd st)) then (h ! r)\<lparr>ssrModule := None\<rparr>
           else h ! r)"
    unfolding swept_def log by (elim conjE)
qed

lemma invalidateAll_unfold:
  "fst (invalidateAll g) =
     g\<lparr>heap := fst (fold invalidateModule (map snd (idToModuleMap g)) (heap g, [], []))\<rparr>"
  "snd (invalidateAll g) =
     snd (snd (fold invalidateModule (map snd (idToModuleMap g)) (heap g, [], [])))"
  by (simp_all add: invalidateAll_def Let_def)

lemma onFileChange_unfold:
  "fst (onFileChange g f) =
     g\<lparr>heap := fst (fold invalidateModule (case getModulesByFile g f of None \<Rightarrow> [] | Some mods \<Rightarrow> mods)
                     (heap g, [], []))\<rparr>"
  "snd (onFileChange g f) =
     snd (snd (fold invalidateModule (case getModulesByFile g f of None \<Rightarrow> [] | Some mods \<Rightarrow> mods)
                 (heap g, [], [])))"
  by (simp_all add: onFileChange_def Let_def split: option.splits)

text \<open>
  Claim C5. The cascade is a total function (its termination is proved above, for every
  store, cyclic or not), and the log of its visits has no node twice. In detail:
  \<open>invalidateModule\<close> started with an empty \<open>seen\<close> visits the nodes that are reachable
  from the node through importer edges, each of them exactly once and no other node, and
  the visited nodes have \<open>ssrModule\<close> cleared. Started with any \<open>seen\<close> it visits no
  node twice and no node of \<open>seen\<close>, and \<open>seen\<close> grows by the visited nodes.
  \<open>invalidateAll\<close> changes the store only; over all its invalidations together it
  visits the nodes reachable through importer edges from an allocated node of the id
  index, each of them exactly once and no other node; afterwards the nodes of the id
  index have \<open>info\<close>, \<open>transformResult\<close>, \<open>ssrTransformResult\<close> and \<open>ssrModule\<close>
  cleared, the other visited nodes have \<open>ssrModule\<close> cleared and nothing else changed,
  and every other node is as before. The same holds of \<open>onFileChange\<close> with the nodes
  registered under the file in place of the nodes of the id index.
\<close>

theorem cascade_visits_once:
  "(md < length h \<longrightarrow>
      distinct (snd (snd (invalidateModule md (h, [], [])))) \<and>
      set (snd (snd (invalidateModule md (h, [], [])))) = {r. (md, r) \<in> (importer_edges h)\<^sup>*} \<and>
      (\<forall>r \<in> set (snd (snd (invalidateModule md (h, [], [])))).
         ssrModule (fst (invalidateModule md (h, [], [])) ! r) = None)) \<and>
   (distinct (snd (snd (invalidateModule md (h, seen, [])))) \<and>
    set (snd (snd (invalidateModule md (h, seen, [])))) \<inter> set seen = {} \<and>
    set (fst (snd (invalidateModule md (h, seen, [])))) =
      set seen \<union> set (snd (snd (invalidateModule md (h, seen, [])))) \<and>
    (\<forall>r \<in> set (snd (snd (invalidateModule md (h, seen, [])))).
       ssrModule (fst (invalidateModule md (h, seen, [])) ! r) = None)) \<and>
   (fst (invalidateAll g) = g\<lparr>heap := heap (fst (invalidateAll g))\<rparr> \<and>
    length (heap (fst (invalidateAll g))) = length (heap g) \<and>
    distinct (snd (invalidateAll g)) \<and>
    set (snd (invalidateAll g)) =
      {r. \<exists>m \<in> set (map snd (idToModuleMap g)).
            m < length (heap g) \<and> (m, r) \<in> (importer_edges (heap g))\<^sup>*} \<and>
    (\<forall>r < length (heap g).
       heap (fst (invalidateAll g)) ! r =
         (if r \<in> set (map snd (idToModuleMap g)) then (clear_own (heap g ! r))\<lparr>ssrModule := None\<rparr>
          else if r \<in> set (snd (invalidateAll g)) then (heap g ! r)\<lparr>ssrModule := None\<rparr>
          else heap g ! r))) \<and>
   (fst (onFileChange g f) = g\<lparr>heap := heap (fst (onFileChange g f))\<rparr> \<and>
    length (heap (fst (onFileChange g f))) = length (heap g) \<and>
    distinct (snd (onFileChange g f)) \<and>
    set (snd (onFileChange g f)) =
      {r. \<exists>m \<in> set (case getModulesByFile g f of None \<Rightarrow> [] | Some mods \<Rightarrow> mods).
            m < length (heap g) \<and> (m, r) \<in> (importer_edges (heap g))\<^sup>*} \<and>
    (\<forall>r < length (heap g).
       heap (fst (onFileChange g f)) ! r =
         (if r \<in> set (case getModulesByFile g f of None \<Rightarrow> [] | Some mods \<Rightarrow> mods)
          then (clear_own (heap g ! r))\<lparr>ssrModule := None\<rparr>
          else if r \<in> set (snd (onFileChange g f)) then (heap g ! r)\<lparr>ssrModule := None\<rparr>
          else heap g ! r)))"
proof -
  have log: "distinct (snd (snd (invalidateModule md (h, s, [])))) \<and>
      set (snd (snd (invalidateModule md (h, s, [])))) \<inter> set s = {} \<and>
      set (fst (snd (invalidateModule md (h, s, [])))) =
        set s \<union> set (snd (snd (invalidateModule md (h, s, [])))) \<and>
      (\<forall>r \<in> set (snd (snd (invalidateModule md (h, s, [])))).
         ssrModule (fst (invalidateModule md (h, s, [])) ! r) = None)" for s
  proof -
    let ?R = "invalidateModule md (h, s, [])"
    from invalidateModule_log [of md h s "[]"] obtain new where
      new: "fst (snd ?R) = s @ new" "snd (snd ?R) = [] @ new" "distinct new"
        "set new = set (fst (snd ?R)) - set s"
      by (elim exE conjE)
    from new(2) have v: "snd (snd ?R) = new" by simp
    have a: "distinct (snd (snd ?R))" unfolding v by (rule new(3))
    have b: "set (snd (snd ?R)) \<inter> set s = {}" unfolding v using new(4) by blast
    have c: "set (fst (snd ?R)) = set s \<union> set (snd (snd ?R))" unfolding v using new(1) by simp
    have d: "ssrModule (fst ?R ! r) = None" if "r \<in> set (snd (snd ?R))" for r
    proof -
      from that have r: "r \<in> set (fst (snd ?R)) - set s" unfolding v new(4) .
      with cascade_post_new(3) [OF invalidateModule_post, of md h s "[]"]
      have "r < length h" by simp
      from invalidateModule_nth [OF this, of md s "[]"] r show ?thesis by simp
    qed
    from a b c d show ?thesis by blast
  qed
  have reach: "set (snd (snd (invalidateModule md (h, [], [])))) = {r. (md, r) \<in> (importer_edges h)\<^sup>*}"
    if "md < length h"
  proof -
    from log [of "[]"] have "set (snd (snd (invalidateModule md (h, [], [])))) =
        set (fst (snd (invalidateModule md (h, [], []))))" by simp
    also have "\<dots> = {r. (md, r) \<in> (importer_edges h)\<^sup>*}"
      using invalidateSSRModule_reach [of md "modify md clear_own h" "[]"] that
      by (simp add: invalidateModule_unfold)
    finally show ?thesis .
  qed
  note ra = swept_result [where h = "heap g" and ms = "map snd (idToModuleMap g)",
      folded invalidateAll_unfold(2)]
  have all1: "fst (invalidateAll g) = g\<lparr>heap := heap (fst (invalidateAll g))\<rparr>"
    by (simp add: invalidateAll_unfold(1))
  have ha: "heap (fst (invalidateAll g)) =
      fst (fold invalidateModule (map snd (idToModuleMap g)) (heap g, [], []))"
    by (simp add: invalidateAll_unfold(1))
  note rf = swept_result [where h = "heap g"
      and ms = "case getModulesByFile g f of None \<Rightarrow> [] | Some mods \<Rightarrow> mods",
      folded onFileChange_unfold(2)]
  have fc1: "fst (onFileChange g f) = g\<lparr>heap := heap (fst (onFileChange g f))\<rparr>"
    by (simp add: onFileChange_unfold(1))
  have hf: "heap (fst (onFileChange g f)) =
      fst (fold invalidateModule (case getModulesByFile g f of None \<Rightarrow> [] | Some mods \<Rightarrow> mods)
             (heap g, [], []))"
    by (simp add: onFileChange_unfold(1))
  show ?thesis
    apply (intro conjI impI)
    subgoal using log [of "[]"] by blast
    subgoal by (rule reach)
    subgoal using log [of "[]"] by blast
    subgoal using log [of seen] by blast
    subgoal using log [of seen] by blast
    subgoal using log [of seen] by blast
    subgoal using log [of seen] by blast
    subgoal by (rule all1)
    subgoal unfolding ha by (rule ra(1))
    subgoal by (rule ra(2))
    subgoal by (rule ra(3))
    subgoal unfolding ha by (rule ra(4))
    subgoal by (rule fc1)
    subgoal unfolding hf by (rule rf(1))
    subgoal by (rule rf(2))
    subgoal by (rule rf(3))
    subgoal unfolding hf by (rule rf(4))
    done
qed

theorem cascade_visits_once_witness:
  "(0::nat) < length cycle_heap \<and>
   snd (snd (invalidateModule 0 (cycle_heap, [], []))) = [0, 2, 1] \<and>
   {r. (0, r) \<in> (importer_edges cycle_heap)\<^sup>*} = set [0, 2, 1] \<and>
   snd (snd (invalidateModule 0 (cycle_heap, [1], []))) = [0, 2] \<and>
   snd (invalidateAll cycle_graph) = [0, 2, 1] \<and>
   {r. \<exists>m \<in> set (map snd (idToModuleMap cycle_graph)).
         m < length (heap cycle_graph) \<and> (m, r) \<in> (importer_edges (heap cycle_graph))\<^sup>*} = set [0, 2, 1] \<and>
   snd (onFileChange cycle_graph ''/root/b.js'') = [1, 0, 2] \<and>
   {r. \<exists>m \<in> set (case getModulesByFile cycle_graph ''/root/b.js'' of None \<Rightarrow> [] | Some mods \<Rightarrow> mods).
         m < length (heap cycle_graph) \<and> (m, r) \<in> (importer_edges (heap cycle_graph))\<^sup>*} = set [1, 0, 2]"
proof -
  have len: "(0::nat) < length cycle_heap" by (simp add: cycle_heap_def)
  note inst = cascade_visits_once [of 0 cycle_heap "[1]" cycle_graph "''/root/b.js''"]
  have one: "snd (snd (invalidateModule 0 (cycle_heap, [], []))) = [0, 2, 1]"
    by (simp add: cycle_heap_invalidate)
  have shared: "snd (snd (invalidateModule 0 (cycle_heap, [1], []))) = [0, 2]"
    by code_simp
  have all: "snd (invalidateAll cycle_graph) = [0, 2, 1]"
    by code_simp
  have fc: "snd (onFileChange cycle_graph ''/root/b.js'') = [1, 0, 2]"
    by code_simp
  from inst len have "set (snd (snd (invalidateModule 0 (cycle_heap, [], [])))) =
      {r. (0, r) \<in> (importer_edges cycle_heap)\<^sup>*}"
    by blast
  then have reach: "{r. (0, r) \<in> (importer_edges cycle_heap)\<^sup>*} = set [0, 2, 1]"
    unfolding one by (rule sym)
  from inst have "set (snd (invalidateAll cycle_graph)) =
      {r. \<exists>m \<in> set (map snd (idToModuleMap cycle_graph)).
            m < length (heap cycle_graph) \<and> (m, r) \<in> (importer_edges (heap cycle_graph))\<^sup>*}"
    by (elim conjE)
  then have reach_all: "{r. \<exists>m \<in> set (map snd (idToModuleMap cycle_graph)).
         m < length (heap cycle_graph) \<and> (m, r) \<in> (importer_edges (heap cycle_graph))\<^sup>*} = set [0, 2, 1]"
    unfolding all by (rule sym)
  from inst have "set (snd (onFileChange cycle_graph ''/root/b.js'')) =
      {r. \<exists>m \<in> set (case getModulesByFile cycle_graph ''/root/b.js'' of None \<Rightarrow> [] | Some mods \<Rightarrow> mods).
            m < length (heap cycle_graph) \<and> (m, r) \<in> (importer_edges (heap cycle_graph))\<^sup>*}"
    by (elim conjE)
  then have reach_fc: "{r. \<exists>m \<in> set (case getModulesByFile cycle_graph ''/root/b.js'' of None \<Rightarrow> [] | Some mods \<Rightarrow> mods).
         m < length (heap cycle_graph) \<and> (m, r) \<in> (importer_edges (heap cycle_graph))\<^sup>*} = set [1, 0, 2]"
    unfolding fc by (rule sym)
  show ?thesis
    by (intro conjI len one reach shared all reach_all fc reach_fc)
qed

text \<open>
  Claim C4. \<open>invalidateModule\<close> clears \<open>info\<close>, \<open>transformResult\<close> and
  \<open>ssrTransformResult\<close> of the node itself (and its \<open>ssrModule\<close> unless the node is in
  \<open>seen\<close> already). Every other node is left as it is, except that the nodes visited by
  the cascade have \<open>ssrModule\<close> cleared and no other field changed. The visited nodes
  are the nodes that the call adds to \<open>seen\<close>; they are the nodes it appends to the log.
  With the default empty \<open>seen\<close> the visited nodes are the nodes reachable through
  importer edges.
\<close>

theorem ssr_cascade_frame:
  assumes "md < length h"
  shows "length (fst (invalidateModule md (h, seen, visits))) = length h \<and>
     fst (invalidateModule md (h, seen, visits)) ! md =
       (h ! md)\<lparr>info := None, transformResult := None, ssrTransformResult := None,
                ssrModule := (if md \<in> set seen then ssrModule (h ! md) else None)\<rparr> \<and>
     (\<forall>r < length h. r \<noteq> md \<longrightarrow>
        fst (invalidateModule md (h, seen, visits)) ! r =
          (if r \<in> set (fst (snd (invalidateModule md (h, seen, visits)))) - set seen
           then (h ! r)\<lparr>ssrModule := None\<rparr> else h ! r)) \<and>
     (\<exists>new. snd (snd (invalidateModule md (h, seen, visits))) = visits @ new \<and>
        set new = set (fst (snd (invalidateModule md (h, seen, visits)))) - set seen) \<and>
     (seen = [] \<longrightarrow>
        set (fst (snd (invalidateModule md (h, seen, visits)))) = {r. (md, r) \<in> (importer_edges h)\<^sup>*})"
proof -
  let ?st' = "invalidateModule md (h, seen, visits)"
  note post = invalidateModule_post [of md h seen visits]
  have len: "length (fst ?st') = length h"
    using cascade_post_length [OF post] by simp
  have nth: "fst ?st' ! r =
      (if r \<in> set (fst (snd ?st')) - set seen then (modify md clear_own h ! r)\<lparr>ssrModule := None\<rparr>
       else modify md clear_own h ! r)" if "r < length h" for r
    using invalidateModule_nth [OF that] .
  have own: "fst ?st' ! md =
       (h ! md)\<lparr>info := None, transformResult := None, ssrTransformResult := None,
                ssrModule := (if md \<in> set seen then ssrModule (h ! md) else None)\<rparr>"
    using nth [OF assms] invalidateModule_member [OF assms, of seen visits] assms
    by (simp add: nth_modify clear_own_def)
  have others: "fst ?st' ! r =
          (if r \<in> set (fst (snd ?st')) - set seen then (h ! r)\<lparr>ssrModule := None\<rparr> else h ! r)"
    if "r < length h" "r \<noteq> md" for r
    using nth [OF that(1)] that(2) by (simp add: nth_modify)
  have visited: "\<exists>new. snd (snd ?st') = visits @ new \<and> set new = set (fst (snd ?st')) - set seen"
    using invalidateModule_log [of md h seen visits] by blast
  have reach: "set (fst (snd ?st')) = {r. (md, r) \<in> (importer_edges h)\<^sup>*}" if "seen = []"
    using invalidateSSRModule_reach [of md "modify md clear_own h" visits] assms that
    by (simp add: invalidateModule_unfold)
  from len own others visited reach show ?thesis by blast
qed

theorem ssr_cascade_frame_witness:
  "(0::nat) < length cycle_heap \<and>
   transformResult (fst (invalidateModule 0 (cycle_heap, [], [])) ! 0) = None \<and>
   ssrModule (fst (invalidateModule 0 (cycle_heap, [], [])) ! 0) = None \<and>
   fst (invalidateModule 0 (cycle_heap, [], [])) ! 1 = (cycle_heap ! 1)\<lparr>ssrModule := None\<rparr> \<and>
   transformResult (fst (invalidateModule 0 (cycle_heap, [], [])) ! 1) = Some ''code b'' \<and>
   {r. (0, r) \<in> (importer_edges cycle_heap)\<^sup>*} = {0, 1, 2}"
proof -
  have len: "(0::nat) < length cycle_heap" by (simp add: cycle_heap_def)
  note inst = ssr_cascade_frame [OF len, of "[]" "[]"]
  have seen': "fst (snd (invalidateModule 0 (cycle_heap, [], []))) = [0, 2, 1]"
    by (simp add: cycle_heap_invalidate)
  from inst have own: "fst (invalidateModule 0 (cycle_heap, [], [])) ! 0 =
       (cycle_heap ! 0)\<lparr>info := None, transformResult := None, ssrTransformResult := None,
                ssrModule := (if (0::nat) \<in> set [] then ssrModule (cycle_heap ! 0) else None)\<rparr>"
    by (elim conjE)
  from inst have "\<forall>r < length cycle_heap. r \<noteq> 0 \<longrightarrow>
        fst (invalidateModule 0 (cycle_heap, [], [])) ! r =
          (if r \<in> set (fst (snd (invalidateModule 0 (cycle_heap, [], [])))) - set []
           then (cycle_heap ! r)\<lparr>ssrModule := None\<rparr> else cycle_heap ! r)"
    by (elim conjE)
  then have b: "fst (invalidateModule 0 (cycle_heap, [], [])) ! 1 = (cycle_heap ! 1)\<lparr>ssrModule := None\<rparr>"
    unfolding seen' by (simp add: cycle_heap_def)
  from inst have "set (fst (snd (invalidateModule 0 (cycle_heap, [], [])))) = {r. (0, r) \<in> (importer_edges cycle_heap)\<^sup>*}"
    by blast
  then have "{r. (0, r) \<in> (importer_edges cycle_heap)\<^sup>*} = set [0, 2, 1]"
    unfolding seen' by (rule sym)
  also have "set [0, 2, 1] = {0, 1, 2::nat}" by auto
  finally have reach: "{r. (0, r) \<in> (importer_edges cycle_heap)\<^sup>*} = {0, 1, 2}" .
  have tb: "transformResult ((cycle_heap ! 1)\<lparr>ssrModule := None\<rparr>) = Some ''code b''"
    by (simp add: cycle_heap_def plain_node_def)
  show ?thesis
    using len own b reach tb by simp
qed


section \<open>Edges and indices under the graph operations\<close>

lemma imports_of_modify [simp]:
  assumes "\<And>n. importedModules (f n) = importedModules n"
  shows "imports_of (modify r f h) = imports_of h"
  using assms by (auto simp: imports_of_def nth_modify fun_eq_iff)

lemma importers_of_modify [simp]:
  assumes "\<And>n. importers (f n) = importers n"
  shows "importers_of (modify r f h) = importers_of h"
  using assms by (auto simp: importers_of_def nth_modify fun_eq_iff)

lemma imports_of_modify_set:
  assumes "r < length h"
  shows "imports_of (modify r (\<lambda>n. n\<lparr>importedModules := v n\<rparr>) h) = (imports_of h)(r := set (v (h ! r)))"
  using assms by (auto simp: imports_of_def nth_modify fun_eq_iff)

lemma importers_of_modify_set:
  assumes "r < length h"
  shows "importers_of (modify r (\<lambda>n. n\<lparr>importers := v n\<rparr>) h) = (importers_of h)(r := set (v (h ! r)))"
  using assms by (auto simp: importers_of_def nth_modify fun_eq_iff)

lemma imports_of_append [simp]:
  "importedModules n = [] \<Longrightarrow> imports_of (h @ [n]) = imports_of h"
  by (auto simp: imports_of_def nth_append fun_eq_iff)

lemma importers_of_append [simp]:
  "importers n = [] \<Longrightarrow> importers_of (h @ [n]) = importers_of h"
  by (auto simp: importers_of_def nth_append fun_eq_iff)

lemma edges_balanced_symmetric: "edges_balanced h \<Longrightarrow> edge_symmetric h"
  unfolding edges_balanced_def edge_symmetric_def imports_of_def importers_of_def
  by (metis (full_types))

lemma set_AList_update:
  "(k', v') \<in> set (AList.update k v al) \<Longrightarrow> (k', v') = (k, v) \<or> (k', v') \<in> set al"
  by (induction al) (auto split: if_splits)

lemma index_allocated_heap_length:
  assumes "index_allocated g" and "length (heap g) \<le> length h'"
  shows "index_allocated (g\<lparr>heap := h'\<rparr>)"
  using assms unfolding index_allocated_def by fastforce

lemma index_allocated_modify [simp]:
  "index_allocated (g\<lparr>heap := modify r f (heap g)\<rparr>) = index_allocated g"
  unfolding index_allocated_def by simp

lemma field_modify:
  assumes "\<And>n. P (f n) = P n"
  shows "P (modify r f h ! k) = P (h ! k)"
  using assms by (simp add: nth_modify)

lemma index_consistent_modify [simp]:
  assumes "\<And>n. url (f n) = url n" "\<And>n. id' (f n) = id' n" "\<And>n. file' (f n) = file' n"
  shows "index_consistent (g\<lparr>heap := modify r f (heap g)\<rparr>) = index_consistent g"
  unfolding index_consistent_def
  by (simp add: field_modify [of url, OF assms(1)] field_modify [of id', OF assms(2)]
      field_modify [of file', OF assms(3)])

lemma ensureEntryFromUrl_cases:
  assumes "ensureEntryFromUrl p g raw ssr = Inr (g', n)"
  obtains (found) u rid m where "resolveUrl p raw ssr = Inr (u, rid, m)"
      "map_of (urlToModuleMap g) u = Some n" "g' = g"
  | (fresh) u rid m where "resolveUrl p raw ssr = Inr (u, rid, m)"
      "map_of (urlToModuleMap g) u = None" "n = length (heap g)"
      "g' = g\<lparr>heap := heap g @ [(new_ModuleNode p u)\<lparr>meta := m, id' := Some rid, file' := Some (cleanUrl p rid)\<rparr>],
              urlToModuleMap := AList.update u (length (heap g)) (urlToModuleMap g),
              idToModuleMap := AList.update rid (length (heap g)) (idToModuleMap g),
              fileToModulesMap := AList.update (cleanUrl p rid)
                (set_add (length (heap g))
                   (case map_of (fileToModulesMap g) (cleanUrl p rid) of None \<Rightarrow> [] | Some ms \<Rightarrow> ms))
                (fileToModulesMap g)\<rparr>"
proof -
  from assms obtain u rid m where r: "resolveUrl p raw ssr = Inr (u, rid, m)"
    by (auto simp: ensureEntryFromUrl_def split: sum.splits)
  show thesis
  proof (cases "map_of (urlToModuleMap g) u")
    case None
    have "(if m \<noteq> None then (new_ModuleNode p u)\<lparr>meta := m\<rparr> else new_ModuleNode p u) =
          (new_ModuleNode p u)\<lparr>meta := m\<rparr>"
      by (simp add: new_ModuleNode_def)
    with assms r None show ?thesis
      by (intro fresh [of u rid m]) (auto simp: ensureEntryFromUrl_def Let_def)
  next
    case (Some k)
    with assms r show ?thesis
      by (intro found [of u rid m]) (auto simp: ensureEntryFromUrl_def)
  qed
qed

lemma index_register:
  assumes ia: "index_allocated g" and ic: "index_consistent g"
    and fresh_url: "map_of (urlToModuleMap g) u = None"
    and node: "url n = u" "id' n = Some rid" "file' n = Some f"
    and ms: "ms = (case map_of (fileToModulesMap g) f of None \<Rightarrow> [] | Some ms \<Rightarrow> ms)"
    and g': "g' = g\<lparr>heap := heap g @ [n],
              urlToModuleMap := AList.update u (length (heap g)) (urlToModuleMap g),
              idToModuleMap := AList.update rid (length (heap g)) (idToModuleMap g),
              fileToModulesMap := AList.update f (set_add (length (heap g)) ms) (fileToModulesMap g)\<rparr>"
  shows "index_allocated g'" and "index_consistent g'"
proof -
  let ?k = "length (heap g)"
  show "index_allocated g'"
    using ia unfolding index_allocated_def g' ms
    by (auto dest!: set_AList_update map_of_SomeD split: option.splits simp: less_Suc_eq)
  have old: "\<And>r. r < ?k \<Longrightarrow> (heap g @ [n]) ! r = heap g ! r" by (simp add: nth_append)
  have new: "(heap g @ [n]) ! ?k = n" by simp
  have ms_ok: "\<forall>r \<in> set ms. r < ?k \<and> file' (heap g ! r) = Some f"
  proof (cases "map_of (fileToModulesMap g) f")
    case None
    then show ?thesis unfolding ms by simp
  next
    case (Some ms0)
    with ic have "\<forall>r \<in> set ms0. r < ?k \<and> file' (heap g ! r) = Some f"
      unfolding index_consistent_def by blast
    with Some show ?thesis unfolding ms by simp
  qed
  have 1: "r < length (heap g') \<and> url (heap g' ! r) = v" if "map_of (urlToModuleMap g') v = Some r" for v r
  proof (cases "v = u")
    case True
    with that show ?thesis unfolding g' using node by (auto simp: update_conv' nth_append)
  next
    case False
    with that have "map_of (urlToModuleMap g) v = Some r" unfolding g' by (simp add: update_conv')
    with ic have "r < ?k \<and> url (heap g ! r) = v" unfolding index_consistent_def by blast
    then show ?thesis unfolding g' by (simp add: nth_append)
  qed
  have 2: "r < length (heap g') \<and> id' (heap g' ! r) = Some i" if "map_of (idToModuleMap g') i = Some r" for i r
  proof (cases "i = rid")
    case True
    with that show ?thesis unfolding g' using node by (auto simp: update_conv' nth_append)
  next
    case False
    with that have "map_of (idToModuleMap g) i = Some r" unfolding g' by (simp add: update_conv')
    with ic have "r < ?k \<and> id' (heap g ! r) = Some i" unfolding index_consistent_def by blast
    then show ?thesis unfolding g' by (simp add: nth_append)
  qed
  have 3: "r < length (heap g') \<and> file' (heap g' ! r) = Some f0"
    if "map_of (fileToModulesMap g') f0 = Some ms0" "r \<in> set ms0" for f0 ms0 r
  proof (cases "f0 = f")
    case True
    with that have "r = ?k \<or> r \<in> set ms" unfolding g' by (auto simp: update_conv')
    with ms_ok True node show ?thesis unfolding g' by (auto simp: nth_append)
  next
    case False
    with that have "map_of (fileToModulesMap g) f0 = Some ms0" unfolding g' by (simp add: update_conv')
    with ic that(2) have "r < ?k \<and> file' (heap g ! r) = Some f0" unfolding index_consistent_def by blast
    then show ?thesis unfolding g' by (simp add: nth_append)
  qed
  have 4: "(\<exists>f0 ms0. file' (heap g' ! r) = Some f0 \<and> map_of (fileToModulesMap g') f0 = Some ms0 \<and> r \<in> set ms0) \<and>
        (\<forall>i. id' (heap g' ! r) = Some i \<longrightarrow>
           map_of (urlToModuleMap g') (url (heap g' ! r)) = Some r \<and>
           (\<exists>k. map_of (idToModuleMap g') i = Some k))" if "r < length (heap g')" for r
  proof (cases "r = ?k")
    case True
    then show ?thesis unfolding g' using node by (auto simp: update_conv' nth_append set_add_def)
  next
    case False
    with that have r: "r < ?k" unfolding g' by simp
    with ic obtain f0 ms0 where f0: "file' (heap g ! r) = Some f0"
      "map_of (fileToModulesMap g) f0 = Some ms0" "r \<in> set ms0"
      unfolding index_consistent_def by blast
    have a: "\<exists>f0 ms0. file' (heap g' ! r) = Some f0 \<and> map_of (fileToModulesMap g') f0 = Some ms0 \<and> r \<in> set ms0"
    proof (cases "f0 = f")
      case True
      with f0 have "ms = ms0" unfolding ms by simp
      with f0 True r show ?thesis unfolding g' by (simp add: update_conv' nth_append)
    next
      case False
      with f0 r show ?thesis unfolding g' by (simp add: update_conv' nth_append)
    qed
    have b: "map_of (urlToModuleMap g') (url (heap g' ! r)) = Some r \<and>
           (\<exists>k. map_of (idToModuleMap g') i = Some k)" if "id' (heap g' ! r) = Some i" for i
    proof -
      from that r have "id' (heap g ! r) = Some i" unfolding g' by (simp add: nth_append)
      with ic r have *: "map_of (urlToModuleMap g) (url (heap g ! r)) = Some r"
        "\<exists>k. map_of (idToModuleMap g) i = Some k"
        unfolding index_consistent_def by blast+
      with fresh_url have "url (heap g ! r) \<noteq> u" by auto
      with * r show ?thesis unfolding g' by (auto simp: update_conv' nth_append)
    qed
    from a b show ?thesis by blast
  qed
  from 1 2 3 4 show "index_consistent g'"
    unfolding index_consistent_def by blast
qed

lemma index_register_file:
  assumes ia: "index_allocated g" and ic: "index_consistent g"
    and node: "id' n = None" "file' n = Some f"
    and ms: "ms = (case map_of (fileToModulesMap g) f of None \<Rightarrow> [] | Some ms \<Rightarrow> ms)"
    and g': "g' = g\<lparr>heap := heap g @ [n],
              fileToModulesMap := AList.update f (set_add (length (heap g)) ms) (fileToModulesMap g)\<rparr>"
  shows "index_allocated g'" and "index_consistent g'"
proof -
  let ?k = "length (heap g)"
  show "index_allocated g'"
    using ia unfolding index_allocated_def g' ms
    by (auto dest!: set_AList_update map_of_SomeD split: option.splits simp: less_Suc_eq)
  have ms_ok: "\<forall>r \<in> set ms. r < ?k \<and> file' (heap g ! r) = Some f"
  proof (cases "map_of (fileToModulesMap g) f")
    case None
    then show ?thesis unfolding ms by simp
  next
    case (Some ms0)
    with ic have "\<forall>r \<in> set ms0. r < ?k \<and> file' (heap g ! r) = Some f"
      unfolding index_consistent_def by blast
    with Some show ?thesis unfolding ms by simp
  qed
  have 1: "r < length (heap g') \<and> url (heap g' ! r) = v" if "map_of (urlToModuleMap g') v = Some r" for v r
  proof -
    from that have "map_of (urlToModuleMap g) v = Some r" unfolding g' by simp
    with ic have "r < ?k \<and> url (heap g ! r) = v" unfolding index_consistent_def by blast
    then show ?thesis unfolding g' by (simp add: nth_append)
  qed
  have 2: "r < length (heap g') \<and> id' (heap g' ! r) = Some i" if "map_of (idToModuleMap g') i = Some r" for i r
  proof -
    from that have "map_of (idToModuleMap g) i = Some r" unfolding g' by simp
    with ic have "r < ?k \<and> id' (heap g ! r) = Some i" unfolding index_consistent_def by blast
    then show ?thesis unfolding g' by (simp add: nth_append)
  qed
  have 3: "r < length (heap g') \<and> file' (heap g' ! r) = Some f0"
    if "map_of (fileToModulesMap g') f0 = Some ms0" "r \<in> set ms0" for f0 ms0 r
  proof (cases "f0 = f")
    case True
    with that have "r = ?k \<or> r \<in> set ms" unfolding g' by (auto simp: update_conv')
    with ms_ok True node show ?thesis unfolding g' by (auto simp: nth_append)
  next
    case False
    with that have "map_of (fileToModulesMap g) f0 = Some ms0" unfolding g' by (simp add: update_conv')
    with ic that(2) have "r < ?k \<and> file' (heap g ! r) = Some f0" unfolding index_consistent_def by blast
    then show ?thesis unfolding g' by (simp add: nth_append)
  qed
  have 4: "(\<exists>f0 ms0. file' (heap g' ! r) = Some f0 \<and> map_of (fileToModulesMap g') f0 = Some ms0 \<and> r \<in> set ms0) \<and>
        (\<forall>i. id' (heap g' ! r) = Some i \<longrightarrow>
           map_of (urlToModuleMap g') (url (heap g' ! r)) = Some r \<and>
           (\<exists>k. map_of (idToModuleMap g') i = Some k))" if "r < length (heap g')" for r
  proof (cases "r = ?k")
    case True
    then show ?thesis unfolding g' using node by (auto simp: update_conv' nth_append set_add_def)
  next
    case False
    with that have r: "r < ?k" unfolding g' by simp
    with ic obtain f0 ms0 where f0: "file' (heap g ! r) = Some f0"
      "map_of (fileToModulesMap g) f0 = Some ms0" "r \<in> set ms0"
      unfolding index_consistent_def by blast
    have a: "\<exists>f0 ms0. file' (heap g' ! r) = Some f0 \<and> map_of (fileToModulesMap g') f0 = Some ms0 \<and> r \<in> set ms0"
    proof (cases "f0 = f")
      case True
      with f0 have "ms = ms0" unfolding ms by simp
      with f0 True r show ?thesis unfolding g' by (simp add: update_conv' nth_append)
    next
      case False
      with f0 r show ?thesis unfolding g' by (simp add: update_conv' nth_append)
    qed
    have b: "map_of (urlToModuleMap g') (url (heap g' ! r)) = Some r \<and>
           (\<exists>k. map_of (idToModuleMap g') i = Some k)" if "id' (heap g' ! r) = Some i" for i
    proof -
      from that r have "id' (heap g ! r) = Some i" unfolding g' by (simp add: nth_append)
      with ic r have "map_of (urlToModuleMap g) (url (heap g ! r)) = Some r"
        "\<exists>k. map_of (idToModuleMap g) i = Some k"
        unfolding index_consistent_def by blast+
      with r show ?thesis unfolding g' by (auto simp: nth_append)
    qed
    from a b show ?thesis by blast
  qed
  from 1 2 3 4 show "index_consistent g'"
    unfolding index_consistent_def by blast
qed

lemma new_ModuleNode_fields [simp]:
  "url (new_ModuleNode p u) = u" "id' (new_ModuleNode p u) = None" "file' (new_ModuleNode p u) = None"
  "importers (new_ModuleNode p u) = []" "importedModules (new_ModuleNode p u) = []"
  by (simp_all add: new_ModuleNode_def)

lemma ensureEntryFromUrl_inv:
  assumes e: "ensureEntryFromUrl p g raw ssr = Inr (g', n)"
    and ia: "index_allocated g" and ic: "index_consistent g"
  shows "index_allocated g'" and "index_consistent g'" and "n < length (heap g')"
    and "length (heap g) \<le> length (heap g')"
    and "imports_of (heap g') = imports_of (heap g)"
    and "importers_of (heap g') = importers_of (heap g)"
    and "\<forall>u r. map_of (urlToModuleMap g) u = Some r \<longrightarrow> map_of (urlToModuleMap g') u = Some r"
    and "\<forall>u r. map_of (urlToModuleMap g') u = Some r \<longrightarrow>
           map_of (urlToModuleMap g) u = Some r \<or> length (heap g) \<le> r"
    and "\<exists>u rid m. resolveUrl p raw ssr = Inr (u, rid, m) \<and>
           (map_of (urlToModuleMap g) u = Some n \<or> length (heap g) \<le> n)"
proof -
  have "index_allocated g' \<and> index_consistent g' \<and> n < length (heap g') \<and>
        length (heap g) \<le> length (heap g') \<and> imports_of (heap g') = imports_of (heap g) \<and>
        importers_of (heap g') = importers_of (heap g) \<and>
        (\<forall>u r. map_of (urlToModuleMap g) u = Some r \<longrightarrow> map_of (urlToModuleMap g') u = Some r) \<and>
        (\<forall>u r. map_of (urlToModuleMap g') u = Some r \<longrightarrow>
           map_of (urlToModuleMap g) u = Some r \<or> length (heap g) \<le> r) \<and>
        (\<exists>u rid m. resolveUrl p raw ssr = Inr (u, rid, m) \<and>
           (map_of (urlToModuleMap g) u = Some n \<or> length (heap g) \<le> n))"
  using e
  proof (cases rule: ensureEntryFromUrl_cases)
    case (found u rid m)
    from found(2) ic have "n < length (heap g)" unfolding index_consistent_def by blast
    with found ia ic show ?thesis by auto
  next
    case (fresh u rid m)
    note reg = index_register [OF ia ic fresh(2), of _ rid "cleanUrl p rid" _ g', OF _ _ _ refl fresh(4)]
    have "index_allocated g'" by (rule reg(1)) simp_all
    moreover have "index_consistent g'" by (rule reg(2)) simp_all
    moreover have "\<forall>v r. map_of (urlToModuleMap g) v = Some r \<longrightarrow> map_of (urlToModuleMap g') v = Some r"
      using fresh(2) unfolding fresh(4) by (auto simp: update_conv')
    moreover have "\<forall>v r. map_of (urlToModuleMap g') v = Some r \<longrightarrow>
           map_of (urlToModuleMap g) v = Some r \<or> length (heap g) \<le> r"
      unfolding fresh(4) by (auto simp: update_conv')
    moreover have "\<exists>u rid m. resolveUrl p raw ssr = Inr (u, rid, m) \<and>
           (map_of (urlToModuleMap g) u = Some n \<or> length (heap g) \<le> n)"
      using fresh(1,3) by auto
    ultimately show ?thesis using fresh(3) unfolding fresh(4) by simp
  qed
  then show "index_allocated g'" and "index_consistent g'" and "n < length (heap g')"
    and "length (heap g) \<le> length (heap g')"
    and "imports_of (heap g') = imports_of (heap g)"
    and "importers_of (heap g') = importers_of (heap g)"
    and "\<forall>u r. map_of (urlToModuleMap g) u = Some r \<longrightarrow> map_of (urlToModuleMap g') u = Some r"
    and "\<forall>u r. map_of (urlToModuleMap g') u = Some r \<longrightarrow>
           map_of (urlToModuleMap g) u = Some r \<or> length (heap g) \<le> r"
    and "\<exists>u rid m. resolveUrl p raw ssr = Inr (u, rid, m) \<and>
           (map_of (urlToModuleMap g) u = Some n \<or> length (heap g) \<le> n)"
    by blast+
qed

lemma find_Some_member: "find P xs = Some x \<Longrightarrow> x \<in> set xs"
  by (induction xs) (auto split: if_splits)

lemma createFileOnlyEntry_inv:
  assumes c: "createFileOnlyEntry p g f0 = (g', n)"
    and ia: "index_allocated g" and ic: "index_consistent g"
  shows "index_allocated g'" and "index_consistent g'" and "n < length (heap g')"
    and "imports_of (heap g') = imports_of (heap g)"
    and "importers_of (heap g') = importers_of (heap g)"
proof -
  let ?f = "normalizePath p f0"
  let ?u = "FS_PREFIX p @ ?f"
  let ?ms = "case map_of (fileToModulesMap g) ?f of None \<Rightarrow> [] | Some ms \<Rightarrow> ms"
  let ?P = "\<lambda>m. url (heap g ! m) = ?u \<or> id' (heap g ! m) = Some ?f"
  have "index_allocated g' \<and> index_consistent g' \<and> n < length (heap g') \<and>
        imports_of (heap g') = imports_of (heap g) \<and> importers_of (heap g') = importers_of (heap g)"
  proof (cases "find ?P ?ms")
    case (Some m)
    then have m: "m \<in> set ?ms" by (rule find_Some_member)
    then obtain ms where ms: "map_of (fileToModulesMap g) ?f = Some ms" "m \<in> set ms"
      by (cases "map_of (fileToModulesMap g) ?f") auto
    with c Some have "g' = g" "n = m" by (auto simp: createFileOnlyEntry_def Let_def)
    moreover from ic ms have "m < length (heap g)" unfolding index_consistent_def by blast
    ultimately show ?thesis using ia ic by simp
  next
    case None
    let ?n = "(new_ModuleNode p ?u)\<lparr>file' := Some ?f\<rparr>"
    have upd: "AList.update ?f v (case map_of (fileToModulesMap g) ?f of
                 None \<Rightarrow> AList.update ?f [] (fileToModulesMap g) | Some ms \<Rightarrow> fileToModulesMap g) =
               AList.update ?f v (fileToModulesMap g)" for v
      by (simp split: option.splits)
    from c None have g': "g' = g\<lparr>heap := heap g @ [?n],
        fileToModulesMap := AList.update ?f (set_add (length (heap g)) ?ms) (fileToModulesMap g)\<rparr>"
      and n: "n = length (heap g)"
      by (auto simp: createFileOnlyEntry_def Let_def upd split: option.splits)
    note reg = index_register_file [OF ia ic, of ?n ?f ?ms g', OF _ _ refl g']
    have "index_allocated g'" by (rule reg(1)) simp_all
    moreover have "index_consistent g'" by (rule reg(2)) simp_all
    ultimately show ?thesis using n unfolding g' by simp
  qed
  then show "index_allocated g'" and "index_consistent g'" and "n < length (heap g')"
    and "imports_of (heap g') = imports_of (heap g)"
    and "importers_of (heap g') = importers_of (heap g)"
    by blast+
qed

lemma idents_modify [simp]:
  assumes "\<And>n. url (f n) = url n" "\<And>n. id' (f n) = id' n" "\<And>n. file' (f n) = file' n"
  shows "idents (modify r f h) = idents h"
  unfolding idents_def
  by (rule nth_equalityI) (simp_all add: nth_modify assms)

lemma idents_fields:
  assumes "idents h' = idents h"
  shows "length h' = length h"
    and "\<And>r. r < length h \<Longrightarrow> url (h' ! r) = url (h ! r) \<and> id' (h' ! r) = id' (h ! r) \<and> file' (h' ! r) = file' (h ! r)"
proof -
  have "length (idents h') = length (idents h)" by (simp only: assms)
  then show len: "length h' = length h" by (simp add: idents_def)
  fix r assume r: "r < length h"
  have "idents h' ! r = idents h ! r" by (simp only: assms)
  then show "url (h' ! r) = url (h ! r) \<and> id' (h' ! r) = id' (h ! r) \<and> file' (h' ! r) = file' (h ! r)"
    using r len by (simp add: idents_def)
qed

lemma index_allocated_idents:
  assumes "idents h' = idents (heap g)"
  shows "index_allocated (g\<lparr>heap := h'\<rparr>) = index_allocated g"
  unfolding index_allocated_def using idents_fields(1) [OF assms] by simp

lemma index_consistent_idents:
  assumes "idents h' = idents (heap g)"
  shows "index_consistent (g\<lparr>heap := h'\<rparr>) = index_consistent g"
  unfolding index_consistent_def using idents_fields [OF assms] by (simp cong: conj_cong)

lemma imports_of_add:
  assumes "md < length h"
  shows "imports_of (modify md (\<lambda>n. n\<lparr>importedModules := set_add dep (importedModules n)\<rparr>) h) =
         (imports_of h)(md := insert dep (imports_of h md))"
  using assms by (simp add: imports_of_modify_set) (simp add: imports_of_def)

lemma importers_of_add:
  assumes "dep < length h"
  shows "importers_of (modify dep (\<lambda>n. n\<lparr>importers := set_add md (importers n)\<rparr>) h) =
         (importers_of h)(dep := insert md (importers_of h dep))"
  using assms by (simp add: importers_of_modify_set) (simp add: importers_of_def)

lemma importers_of_delete:
  assumes "dep < length h"
  shows "importers_of (modify dep (\<lambda>n. n\<lparr>importers := set_delete md (importers n)\<rparr>) h) =
         (importers_of h)(dep := importers_of h dep - {md})"
  using assms by (simp add: importers_of_modify_set) (simp add: importers_of_def set_delete_def)

lemma resolveDep_inv:
  assumes e: "resolveDep p g x ssr = Inr (g', dep)"
    and ia: "index_allocated g" and ic: "index_consistent g"
    and valid: "\<forall>n. x = Inr n \<longrightarrow> n < length (heap g)"
  shows "index_allocated g'" and "index_consistent g'" and "dep < length (heap g')"
    and "length (heap g) \<le> length (heap g')"
    and "imports_of (heap g') = imports_of (heap g)"
    and "importers_of (heap g') = importers_of (heap g)"
    and "\<forall>u r. map_of (urlToModuleMap g) u = Some r \<longrightarrow> map_of (urlToModuleMap g') u = Some r"
    and "\<forall>u r. map_of (urlToModuleMap g') u = Some r \<longrightarrow>
           map_of (urlToModuleMap g) u = Some r \<or> length (heap g) \<le> r"
    and "\<forall>n. x = Inr n \<longrightarrow> dep = n"
    and "\<forall>raw u rid m r. x = Inl raw \<and> resolveUrl p raw ssr = Inr (u, rid, m) \<and>
        map_of (urlToModuleMap g) u = Some r \<longrightarrow> dep = r"
    and "x = Inr dep \<or> (\<exists>raw u rid m. x = Inl raw \<and> resolveUrl p raw ssr = Inr (u, rid, m) \<and>
        (map_of (urlToModuleMap g) u = Some dep \<or> length (heap g) \<le> dep))"
proof -
  have "index_allocated g' \<and> index_consistent g' \<and> dep < length (heap g') \<and>
    length (heap g) \<le> length (heap g') \<and>
    imports_of (heap g') = imports_of (heap g) \<and>
    importers_of (heap g') = importers_of (heap g) \<and>
    (\<forall>u r. map_of (urlToModuleMap g) u = Some r \<longrightarrow> map_of (urlToModuleMap g') u = Some r) \<and>
    (\<forall>u r. map_of (urlToModuleMap g') u = Some r \<longrightarrow>
           map_of (urlToModuleMap g) u = Some r \<or> length (heap g) \<le> r) \<and>
    (\<forall>n. x = Inr n \<longrightarrow> dep = n) \<and>
    (\<forall>raw u rid m r. x = Inl raw \<and> resolveUrl p raw ssr = Inr (u, rid, m) \<and>
        map_of (urlToModuleMap g) u = Some r \<longrightarrow> dep = r) \<and>
    (x = Inr dep \<or> (\<exists>raw u rid m. x = Inl raw \<and> resolveUrl p raw ssr = Inr (u, rid, m) \<and>
        (map_of (urlToModuleMap g) u = Some dep \<or> length (heap g) \<le> dep)))"
  proof (cases x)
    case (Inl raw)
    with e have ee: "ensureEntryFromUrl p g raw ssr = Inr (g', dep)" by (simp add: resolveDep_def)
    have "dep = r" if "resolveUrl p raw ssr = Inr (u, rid, m)" "map_of (urlToModuleMap g) u = Some r" for u rid m r
      using ensureEntryFromUrl_found [OF that] ee by simp
    with ensureEntryFromUrl_inv [OF ee ia ic] Inl show ?thesis by blast
  next
    case (Inr n)
    with e ia ic valid show ?thesis by (simp add: resolveDep_def)
  qed
  then show "index_allocated g'" and "index_consistent g'" and "dep < length (heap g')"
    and "length (heap g) \<le> length (heap g')"
    and "imports_of (heap g') = imports_of (heap g)"
    and "importers_of (heap g') = importers_of (heap g)"
    and "\<forall>u r. map_of (urlToModuleMap g) u = Some r \<longrightarrow> map_of (urlToModuleMap g') u = Some r"
    and "\<forall>u r. map_of (urlToModuleMap g') u = Some r \<longrightarrow>
           map_of (urlToModuleMap g) u = Some r \<or> length (heap g) \<le> r"
    and "\<forall>n. x = Inr n \<longrightarrow> dep = n"
    and "\<forall>raw u rid m r. x = Inl raw \<and> resolveUrl p raw ssr = Inr (u, rid, m) \<and>
        map_of (urlToModuleMap g) u = Some r \<longrightarrow> dep = r"
    and "x = Inr dep \<or> (\<exists>raw u rid m. x = Inl raw \<and> resolveUrl p raw ssr = Inr (u, rid, m) \<and>
        (map_of (urlToModuleMap g) u = Some dep \<or> length (heap g) \<le> dep))"
    by blast+
qed

lemma importLoop_inv:
  assumes "importLoop p md ssr xs g = Inr g1"
    and "index_allocated g" and "index_consistent g" and "md < length (heap g)"
    and "\<forall>n. Inr n \<in> set xs \<longrightarrow> n < length (heap g)"
  shows "index_allocated g1 \<and> index_consistent g1 \<and> length (heap g) \<le> length (heap g1) \<and>
    (\<forall>u r. map_of (urlToModuleMap g) u = Some r \<longrightarrow> map_of (urlToModuleMap g1) u = Some r) \<and>
    (\<forall>u r. map_of (urlToModuleMap g1) u = Some r \<longrightarrow>
           map_of (urlToModuleMap g) u = Some r \<or> length (heap g) \<le> r) \<and>
    (\<exists>D. (\<forall>d \<in> D. d < length (heap g1)) \<and> (\<forall>n. Inr n \<in> set xs \<longrightarrow> n \<in> D) \<and>
       (\<forall>raw u rid m r. Inl raw \<in> set xs \<and> resolveUrl p raw ssr = Inr (u, rid, m) \<and>
          map_of (urlToModuleMap g) u = Some r \<longrightarrow> r \<in> D) \<and>
       (\<forall>d \<in> D. import_origin p ssr g xs d) \<and>
       imports_of (heap g1) = (imports_of (heap g))(md := imports_of (heap g) md \<union> D) \<and>
       importers_of (heap g1) = (\<lambda>r. importers_of (heap g) r \<union> (if r \<in> D then {md} else {})))"
  using assms
proof (induction xs arbitrary: g)
  case Nil
  then have "g1 = g" by simp
  with Nil.prems(2,3) show ?case by (intro conjI exI [of _ "{}"]) (auto simp: fun_eq_iff)
next
  case (Cons x rest)
  from Cons.prems(1) obtain g' dep where rd: "resolveDep p g x ssr = Inr (g', dep)"
    by (auto split: sum.splits)
  define g'' where "g'' = g'\<lparr>heap :=
      modify md (\<lambda>n. n\<lparr>importedModules := set_add dep (importedModules n)\<rparr>)
        (modify dep (\<lambda>n. n\<lparr>importers := set_add md (importers n)\<rparr>) (heap g'))\<rparr>"
  from Cons.prems(1) rd have loop: "importLoop p md ssr rest g'' = Inr g1"
    by (simp add: g''_def)
  from Cons.prems(5) have vx: "\<forall>n. x = Inr n \<longrightarrow> n < length (heap g)" by simp
  note R = resolveDep_inv [OF rd Cons.prems(2,3) vx]
  from R(4) Cons.prems(4) have md': "md < length (heap g')" by simp
  note dep = R(3)
  have id'': "idents (heap g'') = idents (heap g')" by (simp add: g''_def)
  have g''_eq: "g'' = g'\<lparr>heap := heap g''\<rparr>" by (simp add: g''_def)
  have ia'': "index_allocated g''"
    using index_allocated_idents [OF id''] R(1) g''_eq by simp
  have ic'': "index_consistent g''"
    using index_consistent_idents [OF id''] R(2) g''_eq by simp
  have len'': "length (heap g'') = length (heap g')" by (simp add: g''_def)
  have imps'': "imports_of (heap g'') = (imports_of (heap g))(md := insert dep (imports_of (heap g) md))"
    using md' R(5) by (simp add: g''_def imports_of_add)
  have imprs'': "importers_of (heap g'') = (importers_of (heap g))(dep := insert md (importers_of (heap g) dep))"
    using dep R(6) by (simp add: g''_def importers_of_add)
  have utm'': "urlToModuleMap g'' = urlToModuleMap g'" by (simp add: g''_def)
  from Cons.prems(5) R(4) len'' have valid'': "\<forall>n. Inr n \<in> set rest \<longrightarrow> n < length (heap g'')" by auto
  from md' len'' have md'': "md < length (heap g'')" by simp
  from Cons.IH [OF loop ia'' ic'' md'' valid'']
  obtain D where IH: "index_allocated g1" "index_consistent g1" "length (heap g'') \<le> length (heap g1)"
    "\<forall>u r. map_of (urlToModuleMap g'') u = Some r \<longrightarrow> map_of (urlToModuleMap g1) u = Some r"
    "\<forall>d \<in> D. d < length (heap g1)" "\<forall>n. Inr n \<in> set rest \<longrightarrow> n \<in> D"
    "\<forall>raw u rid m r. Inl raw \<in> set rest \<and> resolveUrl p raw ssr = Inr (u, rid, m) \<and>
          map_of (urlToModuleMap g'') u = Some r \<longrightarrow> r \<in> D"
    "imports_of (heap g1) = (imports_of (heap g''))(md := imports_of (heap g'') md \<union> D)"
    "importers_of (heap g1) = (\<lambda>r. importers_of (heap g'') r \<union> (if r \<in> D then {md} else {}))"
    "\<forall>u r. map_of (urlToModuleMap g1) u = Some r \<longrightarrow>
           map_of (urlToModuleMap g'') u = Some r \<or> length (heap g'') \<le> r"
    "\<forall>d \<in> D. import_origin p ssr g'' rest d"
    by (elim conjE exE)
  let ?D = "insert dep D"
  have 1: "\<forall>d \<in> ?D. d < length (heap g1)" using IH(3,5) dep len'' by auto
  have 2: "\<forall>n. Inr n \<in> set (x # rest) \<longrightarrow> n \<in> ?D" using IH(6) R(9) by auto
  have 3: "\<forall>raw u rid m r. Inl raw \<in> set (x # rest) \<and> resolveUrl p raw ssr = Inr (u, rid, m) \<and>
          map_of (urlToModuleMap g) u = Some r \<longrightarrow> r \<in> ?D"
  proof (intro allI impI)
    fix raw u rid m r
    assume a: "Inl raw \<in> set (x # rest) \<and> resolveUrl p raw ssr = Inr (u, rid, m) \<and>
          map_of (urlToModuleMap g) u = Some r"
    show "r \<in> ?D"
    proof (cases "x = Inl raw")
      case True
      with a R(10) have "dep = r" by blast
      then show ?thesis by simp
    next
      case False
      with a have "Inl raw \<in> set rest" by simp
      moreover from a R(7) have "map_of (urlToModuleMap g'') u = Some r" unfolding utm'' by blast
      ultimately have "r \<in> D" using a IH(7) by blast
      then show ?thesis by simp
    qed
  qed
  have 4: "imports_of (heap g1) = (imports_of (heap g))(md := imports_of (heap g) md \<union> ?D)"
    unfolding IH(8) imps'' by (auto simp: fun_eq_iff)
  have 5: "importers_of (heap g1) = (\<lambda>r. importers_of (heap g) r \<union> (if r \<in> ?D then {md} else {}))"
    unfolding IH(9) imprs'' by (auto simp: fun_eq_iff)
  have 6: "\<forall>u r. map_of (urlToModuleMap g) u = Some r \<longrightarrow> map_of (urlToModuleMap g1) u = Some r"
    using R(7) IH(4) unfolding utm'' by blast
  have 7: "length (heap g) \<le> length (heap g1)" using R(4) IH(3) len'' by simp
  have 8: "\<forall>u r. map_of (urlToModuleMap g1) u = Some r \<longrightarrow>
           map_of (urlToModuleMap g) u = Some r \<or> length (heap g) \<le> r"
  proof (intro allI impI)
    fix u r assume "map_of (urlToModuleMap g1) u = Some r"
    with IH(10) have "map_of (urlToModuleMap g') u = Some r \<or> length (heap g') \<le> r"
      unfolding utm'' len'' by blast
    with R(8) R(4) show "map_of (urlToModuleMap g) u = Some r \<or> length (heap g) \<le> r"
      by (metis order_trans)
  qed
  have 9: "\<forall>d \<in> ?D. import_origin p ssr g (x # rest) d"
  proof
    fix d assume "d \<in> ?D"
    then consider "d = dep" | "d \<in> D" by blast
    then show "import_origin p ssr g (x # rest) d"
    proof cases
      case 1
      with R(11) show ?thesis unfolding import_origin_def by auto
    next
      case 2
      with IH(11) have "import_origin p ssr g'' rest d" by blast
      then consider "Inr d \<in> set rest"
        | raw u rid m where "Inl raw \<in> set rest" "resolveUrl p raw ssr = Inr (u, rid, m)"
            "map_of (urlToModuleMap g') u = Some d \<or> length (heap g') \<le> d"
        unfolding import_origin_def utm'' len'' by blast
      then show ?thesis
      proof cases
        case 1
        then show ?thesis unfolding import_origin_def by simp
      next
        case 2
        from 2(3) R(8) R(4) have "map_of (urlToModuleMap g) u = Some d \<or> length (heap g) \<le> d"
          by (metis order_trans)
        with 2(1,2) show ?thesis unfolding import_origin_def by auto
      qed
    qed
  qed
  show ?case
    by (intro conjI exI [of _ ?D]) (fact IH(1) IH(2) 7 6 8 1 2 3 9 4 5)+
qed

lemma pruneLoop_inv:
  assumes "pruneLoop md prev (h, acc) = (h', ret)"
    and "\<forall>d \<in> set prev. d < length h" and "md < length h"
  shows "idents h' = idents h \<and> imports_of h' = imports_of h \<and>
    importers_of h' =
      (\<lambda>r. if r \<in> set prev - imports_of h md then importers_of h r - {md} else importers_of h r) \<and>
    orphan_set ret = orphan_set acc \<union> {d \<in> set prev - imports_of h md. importers_of h d - {md} = {}} \<and>
    (ret = None \<longleftrightarrow> acc = None \<and> {d \<in> set prev - imports_of h md. importers_of h d - {md} = {}} = {}) \<and>
    (acc \<noteq> Some [] \<longrightarrow> ret \<noteq> Some [])"
  using assms
proof (induction prev arbitrary: h acc)
  case Nil
  then show ?case by (simp add: fun_eq_iff)
next
  case (Cons dep rest)
  let ?N = "imports_of h md"
  from Cons.prems(3) have N: "set (importedModules (h ! md)) = ?N" by (simp add: imports_of_def)
  from Cons.prems(2) have dep: "dep < length h" and rest: "\<forall>d \<in> set rest. d < length h" by simp_all
  show ?case
  proof (cases "dep \<in> ?N")
    case True
    with Cons.prems(1) N have "pruneLoop md rest (h, acc) = (h', ret)" by simp
    from Cons.IH [OF this rest Cons.prems(3)] True show ?thesis
      by (auto simp: fun_eq_iff)
  next
    case False
    define h1 where "h1 = modify dep (\<lambda>n. n\<lparr>importers := set_delete md (importers n)\<rparr>) h"
    define c where "c \<longleftrightarrow> importers_of h dep - {md} = {}"
    define acc1 where "acc1 = (if c then Some (set_add dep (case acc of None \<Rightarrow> [] | Some s \<Rightarrow> s)) else acc)"
    have imprs1: "importers_of h1 = (importers_of h)(dep := importers_of h dep - {md})"
      unfolding h1_def using dep by (rule importers_of_delete)
    have imps1: "imports_of h1 = imports_of h" unfolding h1_def by simp
    have id1: "idents h1 = idents h" unfolding h1_def by simp
    have len1: "length h1 = length h" unfolding h1_def by simp
    have "importers (h1 ! dep) = [] \<longleftrightarrow> importers_of h1 dep = {}"
      using dep len1 by (simp add: importers_of_def)
    then have c': "importers (h1 ! dep) = [] \<longleftrightarrow> c" unfolding c_def imprs1 by simp
    from Cons.prems(1) False N have loop: "pruneLoop md rest (h1, acc1) = (h', ret)"
      by (cases c) (simp_all add: h1_def [symmetric] Let_def c' acc1_def)
    from rest len1 have rest1: "\<forall>d \<in> set rest. d < length h1" by simp
    from Cons.prems(3) len1 have md1: "md < length h1" by simp
    note IH = Cons.IH [OF loop rest1 md1, unfolded imps1 id1]
    have os: "orphan_set acc1 = orphan_set acc \<union> (if c then {dep} else {})"
      by (auto simp: acc1_def orphan_set_def split: option.splits)
    have none: "acc1 = None \<longleftrightarrow> acc = None \<and> \<not> c" by (simp add: acc1_def)
    have ne: "acc \<noteq> Some [] \<longrightarrow> acc1 \<noteq> Some []" by (cases acc) (auto simp: acc1_def set_add_def)
    have minus: "importers_of h1 d - {md} = importers_of h d - {md}" for d
      unfolding imprs1 by auto
    have S: "{d \<in> set (dep # rest) - ?N. importers_of h d - {md} = {}} =
          (if c then {dep} else {}) \<union> {d \<in> set rest - ?N. importers_of h1 d - {md} = {}}"
      using False unfolding minus c_def by auto
    have a: "idents h' = idents h" and b: "imports_of h' = imports_of h" using IH by blast+
    have cc: "importers_of h' =
      (\<lambda>r. if r \<in> set (dep # rest) - ?N then importers_of h r - {md} else importers_of h r)"
    proof -
      from IH have "importers_of h' =
        (\<lambda>r. if r \<in> set rest - ?N then importers_of h1 r - {md} else importers_of h1 r)" by blast
      then show ?thesis unfolding imprs1 using False by (auto simp: fun_eq_iff)
    qed
    have d: "orphan_set ret = orphan_set acc \<union> {d \<in> set (dep # rest) - ?N. importers_of h d - {md} = {}}"
    proof -
      from IH have "orphan_set ret = orphan_set acc1 \<union> {d \<in> set rest - ?N. importers_of h1 d - {md} = {}}"
        by blast
      then show ?thesis unfolding S os by blast
    qed
    have e: "ret = None \<longleftrightarrow> acc = None \<and> {d \<in> set (dep # rest) - ?N. importers_of h d - {md} = {}} = {}"
    proof -
      from IH have "ret = None \<longleftrightarrow> acc1 = None \<and> {d \<in> set rest - ?N. importers_of h1 d - {md} = {}} = {}"
        by blast
      then show ?thesis unfolding S none by auto
    qed
    have f: "acc \<noteq> Some [] \<longrightarrow> ret \<noteq> Some []" using IH ne by blast
    from a b cc d e f show ?thesis by (intro conjI)
  qed
qed

lemma acceptLoop_inv:
  assumes "acceptLoop p md ssr xs g = Inr g1"
    and "index_allocated g" and "index_consistent g"
    and "\<forall>n. Inr n \<in> set xs \<longrightarrow> n < length (heap g)"
  shows "index_allocated g1 \<and> index_consistent g1 \<and> length (heap g) \<le> length (heap g1) \<and>
    imports_of (heap g1) = imports_of (heap g) \<and> importers_of (heap g1) = importers_of (heap g)"
  using assms
proof (induction xs arbitrary: g)
  case Nil
  then show ?case by simp
next
  case (Cons x rest)
  from Cons.prems(1) obtain g' dep where rd: "resolveDep p g x ssr = Inr (g', dep)"
    by (auto split: sum.splits)
  define g'' where "g'' = g'\<lparr>heap :=
      modify md (\<lambda>n. n\<lparr>acceptedHmrDeps := set_add dep (acceptedHmrDeps n)\<rparr>) (heap g')\<rparr>"
  from Cons.prems(1) rd have loop: "acceptLoop p md ssr rest g'' = Inr g1"
    by (simp add: g''_def)
  from Cons.prems(4) have vx: "\<forall>n. x = Inr n \<longrightarrow> n < length (heap g)" by simp
  note R = resolveDep_inv [OF rd Cons.prems(2,3) vx]
  have id'': "idents (heap g'') = idents (heap g')" by (simp add: g''_def)
  have g''_eq: "g'' = g'\<lparr>heap := heap g''\<rparr>" by (simp add: g''_def)
  have ia'': "index_allocated g''"
    using index_allocated_idents [OF id''] R(1) g''_eq by simp
  have ic'': "index_consistent g''"
    using index_consistent_idents [OF id''] R(2) g''_eq by simp
  have len'': "length (heap g'') = length (heap g')" by (simp add: g''_def)
  have imps'': "imports_of (heap g'') = imports_of (heap g)" using R(5) by (simp add: g''_def)
  have imprs'': "importers_of (heap g'') = importers_of (heap g)" using R(6) by (simp add: g''_def)
  from Cons.prems(4) R(4) len'' have valid'': "\<forall>n. Inr n \<in> set rest \<longrightarrow> n < length (heap g'')" by auto
  note IH = Cons.IH [OF loop ia'' ic'' valid'', unfolded imps'' imprs'' len'']
  from IH R(4) show ?case by auto
qed

lemma updateModuleInfo_inv:
  assumes u: "updateModuleInfo p g md imported accepted sa ssr = Inr (g', ret)"
    and ia: "index_allocated g" and ic: "index_consistent g" and md: "md < length (heap g)"
    and vi: "\<forall>n. Inr n \<in> set imported \<longrightarrow> n < length (heap g)"
    and va: "\<forall>n. Inr n \<in> set accepted \<longrightarrow> n < length (heap g)"
    and vp: "\<forall>d \<in> imports_of (heap g) md. d < length (heap g)"
  shows "index_allocated g'" and "index_consistent g'" and "length (heap g) \<le> length (heap g')"
    and "\<forall>r. r \<noteq> md \<longrightarrow> imports_of (heap g') r = imports_of (heap g) r"
    and "importers_of (heap g') =
      (\<lambda>r. if r \<in> imports_of (heap g') md then insert md (importers_of (heap g) r)
           else if r \<in> imports_of (heap g) md then importers_of (heap g) r - {md}
           else importers_of (heap g) r)"
    and "\<forall>d \<in> imports_of (heap g') md. d < length (heap g')"
    and "\<forall>n. Inr n \<in> set imported \<longrightarrow> n \<in> imports_of (heap g') md"
    and "\<forall>raw u rid m r. Inl raw \<in> set imported \<and> resolveUrl p raw ssr = Inr (u, rid, m) \<and>
          map_of (urlToModuleMap g) u = Some r \<longrightarrow> r \<in> imports_of (heap g') md"
    and "orphan_set ret =
      {d \<in> imports_of (heap g) md - imports_of (heap g') md. importers_of (heap g) d - {md} = {}}"
    and "ret = None \<longleftrightarrow>
      {d \<in> imports_of (heap g) md - imports_of (heap g') md. importers_of (heap g) d - {md} = {}} = {}"
    and "ret \<noteq> Some []"
    and "\<forall>d \<in> imports_of (heap g') md. import_origin p ssr g imported d"
proof -
  define h0 where "h0 = modify md (\<lambda>n. n\<lparr>isSelfAccepting := sa\<rparr>) (heap g)"
  define prev where "prev = importedModules (h0 ! md)"
  define g0 where "g0 = g\<lparr>heap := modify md (\<lambda>n. n\<lparr>importedModules := []\<rparr>) h0\<rparr>"
  let ?P = "imports_of (heap g) md"
  from u obtain g1 where il: "importLoop p md ssr imported g0 = Inr g1"
    by (auto simp: updateModuleInfo_def Let_def h0_def g0_def split: sum.splits)
  obtain h2 ret2 where pl: "pruneLoop md prev (heap g1, None) = (h2, ret2)"
    by (cases "pruneLoop md prev (heap g1, None)") auto
  define g2 where "g2 = g1\<lparr>heap := modify md (\<lambda>n. n\<lparr>acceptedHmrDeps := []\<rparr>) h2\<rparr>"
  from u il pl have al: "acceptLoop p md ssr accepted g2 = Inr g'" and ret: "ret = ret2"
    by (auto simp: updateModuleInfo_def Let_def h0_def [symmetric] g0_def [symmetric]
        prev_def [symmetric] g2_def split: sum.splits)
  have prev_set: "set prev = ?P"
    using md by (simp add: prev_def h0_def nth_modify imports_of_def)
  have len0: "length (heap g0) = length (heap g)" by (simp add: g0_def h0_def)
  have id0: "idents (heap g0) = idents (heap g)" by (simp add: g0_def h0_def)
  have g0_eq: "g0 = g\<lparr>heap := heap g0\<rparr>" by (simp add: g0_def)
  have ia0: "index_allocated g0" using index_allocated_idents [OF id0] ia g0_eq by simp
  have ic0: "index_consistent g0" using index_consistent_idents [OF id0] ic g0_eq by simp
  have utm0: "urlToModuleMap g0 = urlToModuleMap g" by (simp add: g0_def)
  have imps0: "imports_of (heap g0) = (imports_of (heap g))(md := {})"
    using md by (simp add: g0_def h0_def imports_of_modify_set)
  have imprs0: "importers_of (heap g0) = importers_of (heap g)" by (simp add: g0_def h0_def)
  from md len0 have md0: "md < length (heap g0)" by simp
  from vi len0 have vi0: "\<forall>n. Inr n \<in> set imported \<longrightarrow> n < length (heap g0)" by simp
  from importLoop_inv [OF il ia0 ic0 md0 vi0, unfolded utm0 imps0 imprs0 len0]
  obtain D where L: "index_allocated g1" "index_consistent g1" "length (heap g) \<le> length (heap g1)"
    "\<forall>d \<in> D. d < length (heap g1)" "\<forall>n. Inr n \<in> set imported \<longrightarrow> n \<in> D"
    "\<forall>raw u rid m r. Inl raw \<in> set imported \<and> resolveUrl p raw ssr = Inr (u, rid, m) \<and>
          map_of (urlToModuleMap g) u = Some r \<longrightarrow> r \<in> D"
    "imports_of (heap g1) = ((imports_of (heap g))(md := {}))(md := ((imports_of (heap g))(md := {})) md \<union> D)"
    "importers_of (heap g1) = (\<lambda>r. importers_of (heap g) r \<union> (if r \<in> D then {md} else {}))"
    "\<forall>d \<in> D. import_origin p ssr g0 imported d"
    by (elim conjE exE)
  have imps1: "imports_of (heap g1) = (imports_of (heap g))(md := D)"
    unfolding L(7) by (simp add: fun_eq_iff)
  then have N1: "imports_of (heap g1) md = D" by simp
  from vp L(3) prev_set have vp1: "\<forall>d \<in> set prev. d < length (heap g1)" by auto
  from md L(3) have md1: "md < length (heap g1)" by simp
  note PL = pruneLoop_inv [OF pl vp1 md1, unfolded N1 prev_set]
  have id2: "idents h2 = idents (heap g1)" using PL by blast
  have imps2: "imports_of h2 = imports_of (heap g1)" using PL by blast
  have imprs2: "importers_of h2 =
      (\<lambda>r. if r \<in> ?P - D then importers_of (heap g1) r - {md} else importers_of (heap g1) r)"
    using PL by blast
  have os2: "orphan_set ret2 = orphan_set None \<union> {d \<in> ?P - D. importers_of (heap g1) d - {md} = {}}"
    using PL by blast
  have none2: "ret2 = None \<longleftrightarrow> {d \<in> ?P - D. importers_of (heap g1) d - {md} = {}} = {}"
    using PL by blast
  have ne2: "ret2 \<noteq> Some []" using PL by blast
  have id_g2: "idents (heap g2) = idents (heap g1)" by (simp add: g2_def id2)
  have g2_eq: "g2 = g1\<lparr>heap := heap g2\<rparr>" by (simp add: g2_def)
  have ia2: "index_allocated g2" using index_allocated_idents [OF id_g2] L(1) g2_eq by simp
  have ic2: "index_consistent g2" using index_consistent_idents [OF id_g2] L(2) g2_eq by simp
  have len2: "length (heap g2) = length (heap g1)" using idents_fields(1) [OF id_g2] .
  from va L(3) len2 have va2: "\<forall>n. Inr n \<in> set accepted \<longrightarrow> n < length (heap g2)" by auto
  have imps_g2: "imports_of (heap g2) = imports_of (heap g1)" by (simp add: g2_def imps2)
  have imprs_g2: "importers_of (heap g2) = importers_of h2" by (simp add: g2_def)
  note AL = acceptLoop_inv [OF al ia2 ic2 va2, unfolded imps_g2 imprs_g2 len2]
  show "index_allocated g'" and "index_consistent g'" using AL by blast+
  show len: "length (heap g) \<le> length (heap g')" using AL L(3) by simp
  have imps': "imports_of (heap g') = (imports_of (heap g))(md := D)" using AL imps1 by simp
  then have N': "imports_of (heap g') md = D" by simp
  show "\<forall>r. r \<noteq> md \<longrightarrow> imports_of (heap g') r = imports_of (heap g) r" using imps' by simp
  have imprs': "importers_of (heap g') = importers_of h2" using AL by blast
  show "importers_of (heap g') =
      (\<lambda>r. if r \<in> imports_of (heap g') md then insert md (importers_of (heap g) r)
           else if r \<in> imports_of (heap g) md then importers_of (heap g) r - {md}
           else importers_of (heap g) r)"
    unfolding N' imprs' imprs2 L(8) by (auto simp: fun_eq_iff)
  show "\<forall>d \<in> imports_of (heap g') md. d < length (heap g')"
    unfolding N' using L(4) AL by auto
  show "\<forall>n. Inr n \<in> set imported \<longrightarrow> n \<in> imports_of (heap g') md"
    unfolding N' by (rule L(5))
  show "\<forall>raw u rid m r. Inl raw \<in> set imported \<and> resolveUrl p raw ssr = Inr (u, rid, m) \<and>
          map_of (urlToModuleMap g) u = Some r \<longrightarrow> r \<in> imports_of (heap g') md"
    unfolding N' by (rule L(6))
  have S: "{d \<in> ?P - D. importers_of (heap g1) d - {md} = {}} =
           {d \<in> ?P - D. importers_of (heap g) d - {md} = {}}"
    unfolding L(8) by auto
  show "orphan_set ret =
      {d \<in> imports_of (heap g) md - imports_of (heap g') md. importers_of (heap g) d - {md} = {}}"
    unfolding N' ret os2 S by (simp add: orphan_set_def)
  show "ret = None \<longleftrightarrow>
      {d \<in> imports_of (heap g) md - imports_of (heap g') md. importers_of (heap g) d - {md} = {}} = {}"
    unfolding N' ret none2 S ..
  show "ret \<noteq> Some []" unfolding ret by (rule ne2)
  show "\<forall>d \<in> imports_of (heap g') md. import_origin p ssr g imported d"
    unfolding N' using L(9) by (simp add: import_origin_def utm0 len0)
qed

lemma cascade_post_static:
  assumes "cascade_post st st'"
  shows "idents (fst st') = idents (fst st)"
    and "imports_of (fst st') = imports_of (fst st)"
    and "importers_of (fst st') = importers_of (fst st)"
proof -
  from assms obtain new where len: "length (fst st') = length (fst st)"
    and nth: "\<forall>r < length (fst st).
       fst st' ! r = (if r \<in> set new then (fst st ! r)\<lparr>ssrModule := None\<rparr> else fst st ! r)"
    unfolding cascade_post_def by blast
  show "idents (fst st') = idents (fst st)"
    unfolding idents_def using len nth by (intro nth_equalityI) auto
  show "imports_of (fst st') = imports_of (fst st)"
    using len nth by (auto simp: imports_of_def fun_eq_iff)
  show "importers_of (fst st') = importers_of (fst st)"
    using len nth by (auto simp: importers_of_def fun_eq_iff)
qed

lemma clear_own_fields [simp]:
  "url (clear_own n) = url n" "id' (clear_own n) = id' n" "file' (clear_own n) = file' n"
  "importers (clear_own n) = importers n" "importedModules (clear_own n) = importedModules n"
  by (simp_all add: clear_own_def)

lemma invalidateModule_static:
  "idents (fst (invalidateModule md st)) = idents (fst st)"
  "imports_of (fst (invalidateModule md st)) = imports_of (fst st)"
  "importers_of (fst (invalidateModule md st)) = importers_of (fst st)"
  using cascade_post_static [OF invalidateModule_post, of md "fst st" "fst (snd st)" "snd (snd st)"]
  by simp_all

lemma fold_invalidateModule_static:
  "idents (fst (fold invalidateModule mods st)) = idents (fst st) \<and>
   imports_of (fst (fold invalidateModule mods st)) = imports_of (fst st) \<and>
   importers_of (fst (fold invalidateModule mods st)) = importers_of (fst st)"
  by (induction mods arbitrary: st) (simp_all add: invalidateModule_static)

lemma graph_inv_heap:
  assumes "idents h' = idents (heap g)" and "imports_of h' = imports_of (heap g)"
    and "importers_of h' = importers_of (heap g)"
  shows "graph_inv (g\<lparr>heap := h'\<rparr>) = graph_inv g"
  unfolding graph_inv_def
  using index_allocated_idents [OF assms(1)] index_consistent_idents [OF assms(1)] assms(2,3)
  by (simp add: edges_balanced_def)

lemma edges_balanced_allocated:
  assumes "edges_balanced h" and "d \<in> imports_of h md"
  shows "d < length h"
proof -
  from assms have "md \<in> importers_of h d" unfolding edges_balanced_def by blast
  then show ?thesis unfolding importers_of_def by (auto split: if_splits)
qed

lemma updateModuleInfo_graph_inv:
  assumes u: "updateModuleInfo p g md imported accepted sa ssr = Inr (g', ret)"
    and inv: "graph_inv g" and md: "md < length (heap g)"
    and vi: "\<forall>n. Inr n \<in> set imported \<longrightarrow> n < length (heap g)"
    and va: "\<forall>n. Inr n \<in> set accepted \<longrightarrow> n < length (heap g)"
  shows "graph_inv g'"
proof -
  from inv have bal: "edges_balanced (heap g)" and ia: "index_allocated g" and ic: "index_consistent g"
    unfolding graph_inv_def by blast+
  have vp: "\<forall>d \<in> imports_of (heap g) md. d < length (heap g)"
    using edges_balanced_allocated [OF bal] by blast
  note U = updateModuleInfo_inv [OF u ia ic md vi va vp]
  let ?D = "imports_of (heap g') md" and ?P = "imports_of (heap g) md"
  have "a \<in> imports_of (heap g') b \<longleftrightarrow> b \<in> importers_of (heap g') a" for a b
  proof (cases "b = md")
    case False
    with U(4) have "a \<in> imports_of (heap g') b \<longleftrightarrow> a \<in> imports_of (heap g) b" by simp
    also have "\<dots> \<longleftrightarrow> b \<in> importers_of (heap g) a" using bal unfolding edges_balanced_def by blast
    also have "\<dots> \<longleftrightarrow> b \<in> importers_of (heap g') a" unfolding U(5) using False by auto
    finally show ?thesis .
  next
    case True
    have "md \<in> importers_of (heap g) a \<longleftrightarrow> a \<in> ?P" using bal unfolding edges_balanced_def by blast
    then show ?thesis unfolding True U(5) by auto
  qed
  then have "edges_balanced (heap g')" unfolding edges_balanced_def by blast
  with U(1,2) show ?thesis unfolding graph_inv_def by blast
qed

lemma resolveDep_returns:
  assumes "\<forall>raw. x = Inl raw \<longrightarrow> resolveUrl p raw ssr \<noteq> Inl TypeError"
  shows "\<exists>g' dep. resolveDep p g x ssr = Inr (g', dep)"
proof (cases x)
  case (Inl raw)
  with assms have "resolveUrl p raw ssr \<noteq> Inl TypeError" by simp
  then obtain u rid m where "resolveUrl p raw ssr = Inr (u, rid, m)"
    by (cases "resolveUrl p raw ssr") (auto intro: error.exhaust)
  from ensureEntryFromUrl_registers [OF this, of g] Inl show ?thesis
    by (auto simp: resolveDep_def)
next
  case (Inr n)
  then show ?thesis by (simp add: resolveDep_def)
qed

lemma importLoop_returns:
  assumes "\<forall>raw. Inl raw \<in> set xs \<longrightarrow> resolveUrl p raw ssr \<noteq> Inl TypeError"
  shows "\<exists>g1. importLoop p md ssr xs g = Inr g1"
  using assms
proof (induction xs arbitrary: g)
  case Nil
  show ?case by simp
next
  case (Cons x rest)
  from Cons.prems have "\<forall>raw. x = Inl raw \<longrightarrow> resolveUrl p raw ssr \<noteq> Inl TypeError" by simp
  from resolveDep_returns [OF this, of g] obtain g' dep where
    rd: "resolveDep p g x ssr = Inr (g', dep)" by blast
  from Cons.prems have "\<forall>raw. Inl raw \<in> set rest \<longrightarrow> resolveUrl p raw ssr \<noteq> Inl TypeError" by simp
  from Cons.IH [OF this] rd show ?case by simp
qed

lemma acceptLoop_raised:
  assumes "acceptLoop p md ssr xs g = Inl (e, g')"
  shows "\<exists>ys. set ys \<subseteq> set xs \<and> acceptLoop p md ssr ys g = Inr g'"
  using assms
proof (induction xs arbitrary: g)
  case Nil
  then show ?case by simp
next
  case (Cons x rest)
  show ?case
  proof (cases "resolveDep p g x ssr")
    case (Inl e')
    with Cons.prems have "g' = g" by simp
    then have "set [] \<subseteq> set (x # rest) \<and> acceptLoop p md ssr [] g = Inr g'" by simp
    then show ?thesis by (rule exI)
  next
    case (Inr res)
    obtain g1 dep where res: "res = (g1, dep)" by (cases res)
    define g2 where "g2 = g1\<lparr>heap :=
      modify md (\<lambda>n. n\<lparr>acceptedHmrDeps := set_add dep (acceptedHmrDeps n)\<rparr>) (heap g1)\<rparr>"
    from Cons.prems Inr res have "acceptLoop p md ssr rest g2 = Inl (e, g')"
      by (simp add: g2_def)
    from Cons.IH [OF this] obtain ys where ys: "set ys \<subseteq> set rest" "acceptLoop p md ssr ys g2 = Inr g'"
      by blast
    from ys Inr res have "set (x # ys) \<subseteq> set (x # rest) \<and> acceptLoop p md ssr (x # ys) g = Inr g'"
      by (auto simp: g2_def)
    then show ?thesis by (rule exI)
  qed
qed

lemma updateModuleInfo_raised_accepting:
  assumes u: "updateModuleInfo p g md imported accepted sa ssr = Inl (e, g')"
    and ok: "\<forall>raw. Inl raw \<in> set imported \<longrightarrow> resolveUrl p raw ssr \<noteq> Inl TypeError"
  shows "\<exists>ys ret. set ys \<subseteq> set accepted \<and> updateModuleInfo p g md imported ys sa ssr = Inr (g', ret)"
proof -
  define g0 where "g0 = g\<lparr>heap := modify md (\<lambda>n. n\<lparr>importedModules := []\<rparr>)
      (modify md (\<lambda>n. n\<lparr>isSelfAccepting := sa\<rparr>) (heap g))\<rparr>"
  define prev where "prev = importedModules (modify md (\<lambda>n. n\<lparr>isSelfAccepting := sa\<rparr>) (heap g) ! md)"
  from importLoop_returns [OF ok, of md g0] obtain g1 where il: "importLoop p md ssr imported g0 = Inr g1"
    by blast
  define st where "st = pruneLoop md prev (heap g1, None)"
  define g2 where "g2 = g1\<lparr>heap := modify md (\<lambda>n. n\<lparr>acceptedHmrDeps := []\<rparr>) (fst st)\<rparr>"
  have unf: "updateModuleInfo p g md imported zs sa ssr =
       (case acceptLoop p md ssr zs g2 of
                   Inl raised \<Rightarrow> Inl raised
                 | Inr g3 \<Rightarrow> Inr (g3, snd st))" for zs
    using il unfolding updateModuleInfo_def Let_def g0_def prev_def st_def g2_def by simp
  from u have "acceptLoop p md ssr accepted g2 = Inl (e, g')"
    unfolding unf by (cases "acceptLoop p md ssr accepted g2") auto
  from acceptLoop_raised [OF this] obtain ys where
    ys: "set ys \<subseteq> set accepted" "acceptLoop p md ssr ys g2 = Inr g'" by blast
  from ys(2) have "updateModuleInfo p g md imported ys sa ssr = Inr (g', snd st)"
    unfolding unf by simp
  with ys(1) show ?thesis by blast
qed

lemma updateModuleInfo_raised_graph_inv:
  assumes u: "updateModuleInfo p g md imported accepted sa ssr = Inl (e, g')"
    and ok: "\<forall>raw. Inl raw \<in> set imported \<longrightarrow> resolveUrl p raw ssr \<noteq> Inl TypeError"
    and inv: "graph_inv g" and md: "md < length (heap g)"
    and vi: "\<forall>n. Inr n \<in> set imported \<longrightarrow> n < length (heap g)"
    and va: "\<forall>n. Inr n \<in> set accepted \<longrightarrow> n < length (heap g)"
  shows "graph_inv g'"
proof -
  from updateModuleInfo_raised_accepting [OF u ok] obtain ys ret where
    ys: "set ys \<subseteq> set accepted" "updateModuleInfo p g md imported ys sa ssr = Inr (g', ret)"
    by blast
  from ys(1) va have "\<forall>n. Inr n \<in> set ys \<longrightarrow> n < length (heap g)" by blast
  from updateModuleInfo_graph_inv [OF ys(2) inv md vi this] show ?thesis .
qed

lemma reachable_graph_inv: "reachable p g \<Longrightarrow> graph_inv g"
proof (induction rule: reachable.induct)
  case initial
  show ?case
    by (simp add: graph_inv_def empty_graph_def edges_balanced_def imports_of_def importers_of_def
        index_allocated_def index_consistent_def)
next
  case (ensureEntry g rawUrl ssr g' n)
  then have ia: "index_allocated g" and ic: "index_consistent g" and bal: "edges_balanced (heap g)"
    unfolding graph_inv_def by blast+
  from ensureEntryFromUrl_inv(1,2,5,6) [OF ensureEntry(2) ia ic] bal show ?case
    unfolding graph_inv_def edges_balanced_def by simp
next
  case (fileOnlyEntry g f g' n)
  then have ia: "index_allocated g" and ic: "index_consistent g" and bal: "edges_balanced (heap g)"
    unfolding graph_inv_def by blast+
  from createFileOnlyEntry_inv(1,2,4,5) [OF fileOnlyEntry(2) ia ic] bal show ?case
    unfolding graph_inv_def edges_balanced_def by simp
next
  case (updateInfo g md imported accepted selfAccepting ssr g' orphans)
  from updateModuleInfo_graph_inv [OF updateInfo(5) updateInfo.IH updateInfo(2,3,4)] show ?case .
next
  case (updateRaised g md imported accepted ssr selfAccepting e g')
  from updateModuleInfo_raised_graph_inv [OF updateRaised(6,5) updateRaised.IH updateRaised(2,3,4)]
  show ?case .
next
  case (invalidate g md seen visits)
  from graph_inv_heap [OF invalidateModule_static [of md "(heap g, seen, visits)", simplified]] invalidate.IH
  show ?case by simp
next
  case (invalidateEvery g)
  from fold_invalidateModule_static [of "map snd (idToModuleMap g)" "(heap g, [], [])"]
  have "graph_inv (g\<lparr>heap := fst (fold invalidateModule (map snd (idToModuleMap g)) (heap g, [], []))\<rparr>) = graph_inv g"
    by (intro graph_inv_heap) simp_all
  with invalidateEvery.IH show ?case by (simp add: invalidateAll_def Let_def)
next
  case (fileChange g f)
  show ?case
  proof (cases "getModulesByFile g f")
    case None
    with fileChange.IH show ?thesis by (simp add: onFileChange_def)
  next
    case (Some mods)
    from fold_invalidateModule_static [of mods "(heap g, [], [])"]
    have "graph_inv (g\<lparr>heap := fst (fold invalidateModule mods (heap g, [], []))\<rparr>) = graph_inv g"
      by (intro graph_inv_heap) simp_all
    with fileChange.IH Some show ?thesis by (simp add: onFileChange_def Let_def)
  qed
qed


lemma index_origin_idents:
  assumes "idents h' = idents (heap g)"
  shows "index_origin (g\<lparr>heap := h'\<rparr>) = index_origin g"
  unfolding index_origin_def using idents_fields [OF assms] by (simp cong: conj_cong)

lemma index_inv_idents:
  assumes "index_inv g" and "idents h' = idents (heap g)"
  shows "index_inv (g\<lparr>heap := h'\<rparr>)"
  using assms(1) unfolding index_inv_def
  by (simp add: index_allocated_idents [OF assms(2)] index_consistent_idents [OF assms(2)]
      index_origin_idents [OF assms(2)])

lemma index_origin_register:
  assumes io: "index_origin g"
    and node: "id' n = Some rid"
    and g': "g' = g\<lparr>heap := heap g @ [n],
              urlToModuleMap := AList.update u (length (heap g)) (urlToModuleMap g),
              idToModuleMap := AList.update rid (length (heap g)) (idToModuleMap g),
              fileToModulesMap := fm\<rparr>"
  shows "index_origin g'"
proof -
  let ?k = "length (heap g)"
  from io have a: "\<And>v r. map_of (urlToModuleMap g) v = Some r \<Longrightarrow>
      r < ?k \<and> id' (heap g ! r) \<noteq> None"
    and b: "\<And>i r j. map_of (idToModuleMap g) i = Some r \<Longrightarrow> j < ?k \<Longrightarrow>
      id' (heap g ! j) = Some i \<Longrightarrow> j \<le> r"
    unfolding index_origin_def by blast+
  have 1: "r < length (heap g') \<and> id' (heap g' ! r) \<noteq> None"
    if "map_of (urlToModuleMap g') v = Some r" for v r
  proof (cases "v = u")
    case True
    with that have "r = ?k" by (simp add: g' update_conv')
    then show ?thesis using node by (simp add: g')
  next
    case False
    with that have "map_of (urlToModuleMap g) v = Some r" by (simp add: g' update_conv')
    from a [OF this] show ?thesis by (simp add: g' nth_append)
  qed
  have 2: "j \<le> r"
    if "map_of (idToModuleMap g') i = Some r" "j < length (heap g')" "id' (heap g' ! j) = Some i"
    for i r j
  proof (cases "i = rid")
    case True
    with that(1) have "r = ?k" by (simp add: g' update_conv')
    with that(2) show ?thesis by (simp add: g')
  next
    case False
    with that(1) have old: "map_of (idToModuleMap g) i = Some r" by (simp add: g' update_conv')
    have "j \<noteq> ?k" using that(3) node False by (auto simp: g')
    with that(2) have j: "j < ?k" by (simp add: g')
    with that(3) have "id' (heap g ! j) = Some i" by (simp add: g' nth_append)
    from b [OF old j this] show ?thesis .
  qed
  from 1 2 show ?thesis unfolding index_origin_def by blast
qed

lemma index_origin_register_file:
  assumes io: "index_origin g"
    and node: "id' n = None"
    and g': "g' = g\<lparr>heap := heap g @ [n], fileToModulesMap := fm\<rparr>"
  shows "index_origin g'"
proof -
  let ?k = "length (heap g)"
  from io have a: "\<And>v r. map_of (urlToModuleMap g) v = Some r \<Longrightarrow>
      r < ?k \<and> id' (heap g ! r) \<noteq> None"
    and b: "\<And>i r j. map_of (idToModuleMap g) i = Some r \<Longrightarrow> j < ?k \<Longrightarrow>
      id' (heap g ! j) = Some i \<Longrightarrow> j \<le> r"
    unfolding index_origin_def by blast+
  have 1: "r < length (heap g') \<and> id' (heap g' ! r) \<noteq> None"
    if "map_of (urlToModuleMap g') v = Some r" for v r
    using a [of v r] that by (simp add: g' nth_append)
  have 2: "j \<le> r"
    if "map_of (idToModuleMap g') i = Some r" "j < length (heap g')" "id' (heap g' ! j) = Some i"
    for i r j
  proof -
    from that(1) have old: "map_of (idToModuleMap g) i = Some r" by (simp add: g')
    have "j \<noteq> ?k" using that(3) node by (auto simp: g')
    with that(2) have j: "j < ?k" by (simp add: g')
    with that(3) have "id' (heap g ! j) = Some i" by (simp add: g' nth_append)
    from b [OF old j this] show ?thesis .
  qed
  from 1 2 show ?thesis unfolding index_origin_def by blast
qed

lemma ensureEntryFromUrl_index_inv:
  assumes e: "ensureEntryFromUrl p g raw ssr = Inr (g', n)" and inv: "index_inv g"
  shows "index_inv g'"
proof -
  from inv have ia: "index_allocated g" and ic: "index_consistent g" and io: "index_origin g"
    unfolding index_inv_def by blast+
  have "index_origin g'"
    using e
  proof (cases rule: ensureEntryFromUrl_cases)
    case (found u rid m)
    with io show ?thesis by simp
  next
    case (fresh u rid m)
    show ?thesis by (rule index_origin_register [OF io _ fresh(4)]) simp
  qed
  with ensureEntryFromUrl_inv(1,2) [OF e ia ic] show ?thesis unfolding index_inv_def by blast
qed

lemma createFileOnlyEntry_fresh:
  assumes c: "createFileOnlyEntry p g f0 = (g', n)"
  shows "(g' = g \<or> (\<exists>fm. g' = g\<lparr>fileToModulesMap := fm\<rparr>)) \<and> n \<in> set (case map_of (fileToModulesMap g) (normalizePath p f0) of None \<Rightarrow> [] | Some ms \<Rightarrow> ms) \<or>
         n = length (heap g) \<and>
         g' = g\<lparr>heap := heap g @ [(new_ModuleNode p (FS_PREFIX p @ normalizePath p f0))\<lparr>file' := Some (normalizePath p f0)\<rparr>],
                fileToModulesMap := AList.update (normalizePath p f0)
                  (set_add (length (heap g))
                     (case map_of (fileToModulesMap g) (normalizePath p f0) of None \<Rightarrow> [] | Some ms \<Rightarrow> ms))
                  (fileToModulesMap g)\<rparr>"
proof -
  let ?f = "normalizePath p f0"
  let ?u = "FS_PREFIX p @ ?f"
  let ?ms = "case map_of (fileToModulesMap g) ?f of None \<Rightarrow> [] | Some ms \<Rightarrow> ms"
  let ?P = "\<lambda>m. url (heap g ! m) = ?u \<or> id' (heap g ! m) = Some ?f"
  show ?thesis
  proof (cases "find ?P ?ms")
    case (Some m)
    then have m: "m \<in> set ?ms" by (rule find_Some_member)
    then obtain ms where ms: "map_of (fileToModulesMap g) ?f = Some ms" "m \<in> set ms"
      by (cases "map_of (fileToModulesMap g) ?f") auto
    with c Some have "g' = g" "n = m" by (auto simp: createFileOnlyEntry_def Let_def)
    with m show ?thesis by simp
  next
    case None
    have upd: "AList.update ?f v (case map_of (fileToModulesMap g) ?f of
                 None \<Rightarrow> AList.update ?f [] (fileToModulesMap g) | Some ms \<Rightarrow> fileToModulesMap g) =
               AList.update ?f v (fileToModulesMap g)" for v
      by (simp split: option.splits)
    from c None have "g' = g\<lparr>heap := heap g @ [(new_ModuleNode p ?u)\<lparr>file' := Some ?f\<rparr>],
        fileToModulesMap := AList.update ?f (set_add (length (heap g)) ?ms) (fileToModulesMap g)\<rparr>"
      and "n = length (heap g)"
      by (auto simp: createFileOnlyEntry_def Let_def upd split: option.splits)
    then show ?thesis by simp
  qed
qed

lemma createFileOnlyEntry_index_inv:
  assumes c: "createFileOnlyEntry p g f0 = (g', n)" and inv: "index_inv g"
  shows "index_inv g'"
proof -
  from inv have ia: "index_allocated g" and ic: "index_consistent g" and io: "index_origin g"
    unfolding index_inv_def by blast+
  from createFileOnlyEntry_fresh [OF c] have "index_origin g'"
  proof (elim disjE conjE exE)
    assume "g' = g"
    with io show ?thesis by simp
  next
    fix fm assume "g' = g\<lparr>fileToModulesMap := fm\<rparr>"
    with io show ?thesis by (simp add: index_origin_def)
  next
    let ?n = "(new_ModuleNode p (FS_PREFIX p @ normalizePath p f0))\<lparr>file' := Some (normalizePath p f0)\<rparr>"
    assume g': "g' = g\<lparr>heap := heap g @ [?n],
                fileToModulesMap := AList.update (normalizePath p f0)
                  (set_add (length (heap g))
                     (case map_of (fileToModulesMap g) (normalizePath p f0) of None \<Rightarrow> [] | Some ms \<Rightarrow> ms))
                  (fileToModulesMap g)\<rparr>"
    show ?thesis by (rule index_origin_register_file [OF io _ g']) simp
  qed
  with createFileOnlyEntry_inv(1,2) [OF c ia ic] show ?thesis unfolding index_inv_def by blast
qed

lemma resolveDep_index_inv:
  assumes "resolveDep p g x ssr = Inr (g', dep)" and "index_inv g"
  shows "index_inv g'"
  using assms ensureEntryFromUrl_index_inv [of p g _ ssr g' dep]
  by (cases x) (auto simp: resolveDep_def)

lemma importLoop_index_inv:
  assumes "index_inv g"
  shows "(\<forall>g1. importLoop p md ssr xs g = Inr g1 \<longrightarrow> index_inv g1) \<and>
         (\<forall>e g1. importLoop p md ssr xs g = Inl (e, g1) \<longrightarrow> index_inv g1)"
  using assms
proof (induction xs arbitrary: g)
  case Nil
  then show ?case by simp
next
  case (Cons x rest)
  show ?case
  proof (cases "resolveDep p g x ssr")
    case (Inl e)
    with Cons.prems show ?thesis by simp
  next
    case (Inr res)
    obtain g' dep where res: "res = (g', dep)" by (cases res)
    define g'' where "g'' = g'\<lparr>heap :=
      modify md (\<lambda>n. n\<lparr>importedModules := set_add dep (importedModules n)\<rparr>)
        (modify dep (\<lambda>n. n\<lparr>importers := set_add md (importers n)\<rparr>) (heap g'))\<rparr>"
    from Inr res have rd: "resolveDep p g x ssr = Inr (g', dep)" by simp
    have "index_inv g'" by (rule resolveDep_index_inv [OF rd Cons.prems])
    then have "index_inv g''" unfolding g''_def by (rule index_inv_idents) simp
    from Cons.IH [OF this] rd show ?thesis by (simp add: g''_def)
  qed
qed

lemma acceptLoop_index_inv:
  assumes "index_inv g"
  shows "(\<forall>g1. acceptLoop p md ssr xs g = Inr g1 \<longrightarrow> index_inv g1) \<and>
         (\<forall>e g1. acceptLoop p md ssr xs g = Inl (e, g1) \<longrightarrow> index_inv g1)"
  using assms
proof (induction xs arbitrary: g)
  case Nil
  then show ?case by simp
next
  case (Cons x rest)
  show ?case
  proof (cases "resolveDep p g x ssr")
    case (Inl e)
    with Cons.prems show ?thesis by simp
  next
    case (Inr res)
    obtain g' dep where res: "res = (g', dep)" by (cases res)
    define g'' where "g'' = g'\<lparr>heap :=
      modify md (\<lambda>n. n\<lparr>acceptedHmrDeps := set_add dep (acceptedHmrDeps n)\<rparr>) (heap g')\<rparr>"
    from Inr res have rd: "resolveDep p g x ssr = Inr (g', dep)" by simp
    have "index_inv g'" by (rule resolveDep_index_inv [OF rd Cons.prems])
    then have "index_inv g''" unfolding g''_def by (rule index_inv_idents) simp
    from Cons.IH [OF this] rd show ?thesis by (simp add: g''_def)
  qed
qed

lemma pruneLoop_idents: "idents (fst (pruneLoop md prev st)) = idents (fst st)"
proof (induction prev arbitrary: st)
  case Nil
  show ?case by simp
next
  case (Cons dep rest)
  obtain h acc where st: "st = (h, acc)" by (cases st)
  show ?case unfolding st by (simp add: Cons.IH Let_def)
qed

lemma updateModuleInfo_index_inv:
  assumes inv: "index_inv g"
  shows "(\<forall>g' ret. updateModuleInfo p g md imported accepted sa ssr = Inr (g', ret) \<longrightarrow> index_inv g') \<and>
         (\<forall>e g'. updateModuleInfo p g md imported accepted sa ssr = Inl (e, g') \<longrightarrow> index_inv g')"
proof -
  define h0 where "h0 = modify md (\<lambda>n. n\<lparr>isSelfAccepting := sa\<rparr>) (heap g)"
  define prev where "prev = importedModules (h0 ! md)"
  define g0 where "g0 = g\<lparr>heap := modify md (\<lambda>n. n\<lparr>importedModules := []\<rparr>) h0\<rparr>"
  have u: "updateModuleInfo p g md imported accepted sa ssr =
     (case importLoop p md ssr imported g0 of
           Inl raised \<Rightarrow> Inl raised
         | Inr g1 \<Rightarrow>
             (let st = pruneLoop md prev (heap g1, None);
                  g2 = g1\<lparr>heap := modify md (\<lambda>n. n\<lparr>acceptedHmrDeps := []\<rparr>) (fst st)\<rparr>
              in case acceptLoop p md ssr accepted g2 of
                   Inl raised \<Rightarrow> Inl raised
                 | Inr g3 \<Rightarrow> Inr (g3, snd st)))"
    unfolding updateModuleInfo_def Let_def h0_def g0_def prev_def by (rule refl)
  have "index_inv g0" unfolding g0_def h0_def by (rule index_inv_idents [OF inv]) simp
  note il = importLoop_index_inv [OF this, of p md ssr imported]
  show ?thesis
  proof (cases "importLoop p md ssr imported g0")
    case (Inl raised)
    obtain e g1 where "raised = (e, g1)" by (cases raised)
    with Inl il u show ?thesis by simp
  next
    case (Inr g1)
    define st where "st = pruneLoop md prev (heap g1, None)"
    define g2 where "g2 = g1\<lparr>heap := modify md (\<lambda>n. n\<lparr>acceptedHmrDeps := []\<rparr>) (fst st)\<rparr>"
    from Inr il have "index_inv g1" by simp
    moreover have "idents (modify md (\<lambda>n. n\<lparr>acceptedHmrDeps := []\<rparr>) (fst st)) = idents (heap g1)"
      unfolding st_def by (simp add: pruneLoop_idents)
    ultimately have "index_inv g2" unfolding g2_def by (rule index_inv_idents)
    note al = acceptLoop_index_inv [OF this, of p md ssr accepted]
    have u2: "updateModuleInfo p g md imported accepted sa ssr =
       (case acceptLoop p md ssr accepted g2 of
                   Inl raised \<Rightarrow> Inl raised
                 | Inr g3 \<Rightarrow> Inr (g3, snd st))"
      unfolding u Inr st_def g2_def Let_def by simp
    show ?thesis
    proof (cases "acceptLoop p md ssr accepted g2")
      case (Inl raised)
      obtain e g3 where "raised = (e, g3)" by (cases raised)
      with Inl al u2 show ?thesis by simp
    next
      case (Inr g3)
      with al u2 show ?thesis by simp
    qed
  qed
qed

lemma index_inv_empty: "index_inv empty_graph"
  by (simp add: index_inv_def index_allocated_def index_consistent_def index_origin_def empty_graph_def)

lemma attainable_index_inv: "attainable p g \<Longrightarrow> index_inv g"
proof (induction rule: attainable.induct)
  case initial
  show ?case by (rule index_inv_empty)
next
  case (ensureEntry g rawUrl ssr g' n)
  from ensureEntryFromUrl_index_inv [OF ensureEntry(2) ensureEntry.IH] show ?case .
next
  case (fileOnlyEntry g f g' n)
  from createFileOnlyEntry_index_inv [OF fileOnlyEntry(2) fileOnlyEntry.IH] show ?case .
next
  case (updateInfo g md imported accepted selfAccepting ssr g' orphans)
  from updateModuleInfo_index_inv [OF updateInfo.IH, of p md imported accepted selfAccepting ssr] updateInfo(5)
  show ?case by simp
next
  case (updateRaised g md imported accepted selfAccepting ssr e g')
  from updateModuleInfo_index_inv [OF updateRaised.IH, of p md imported accepted selfAccepting ssr] updateRaised(5)
  show ?case by simp
next
  case (invalidate g md seen visits)
  show ?case
    by (rule index_inv_idents [OF invalidate.IH])
      (simp add: invalidateModule_static(1) [of md "(heap g, seen, visits)", simplified])
next
  case (invalidateEvery g)
  have "index_inv (g\<lparr>heap := fst (fold invalidateModule (map snd (idToModuleMap g)) (heap g, [], []))\<rparr>)"
    by (rule index_inv_idents [OF invalidateEvery.IH])
      (simp add: fold_invalidateModule_static [THEN conjunct1])
  then show ?case by (simp add: invalidateAll_def Let_def)
next
  case (fileChange g f)
  show ?case
  proof (cases "getModulesByFile g f")
    case None
    with fileChange.IH show ?thesis by (simp add: onFileChange_def)
  next
    case (Some mods)
    have "index_inv (g\<lparr>heap := fst (fold invalidateModule mods (heap g, [], []))\<rparr>)"
      by (rule index_inv_idents [OF fileChange.IH])
        (simp add: fold_invalidateModule_static [THEN conjunct1])
    with Some show ?thesis by (simp add: onFileChange_def Let_def)
  qed
qed

lemma reachable_attainable: "reachable p g \<Longrightarrow> attainable p g"
proof (induction rule: reachable.induct)
  case initial
  show ?case by (rule attainable.initial)
next
  case (ensureEntry g rawUrl ssr g' n)
  from attainable.ensureEntry [OF ensureEntry.IH ensureEntry(2)] show ?case .
next
  case (fileOnlyEntry g f g' n)
  from attainable.fileOnlyEntry [OF fileOnlyEntry.IH fileOnlyEntry(2)] show ?case .
next
  case (updateInfo g md imported accepted selfAccepting ssr g' orphans)
  from attainable.updateInfo [OF updateInfo.IH updateInfo(2,3,4,5)] show ?case .
next
  case (updateRaised g md imported accepted ssr selfAccepting e g')
  from attainable.updateRaised [OF updateRaised.IH updateRaised(2,3,4,6)] show ?case .
next
  case (invalidate g md seen visits)
  from attainable.invalidate [OF invalidate.IH] show ?case .
next
  case (invalidateEvery g)
  from attainable.invalidateEvery [OF invalidateEvery.IH] show ?case .
next
  case (fileChange g f)
  from attainable.fileChange [OF fileChange.IH] show ?case .
qed


section \<open>The examples\<close>

lemma example_main:
  "ensureEntryFromUrl (node_ports root_resolver) empty_graph ''/main.js'' None = Inr (graph_main, 0)"
  by code_simp

lemma example_imports:
  "updateModuleInfo (node_ports root_resolver) graph_main 0 [Inl ''/util.js'', Inl ''/lib.js''] [] False None =
     Inr (graph_imports, None)"
  by code_simp

lemma example_pruned:
  "updateModuleInfo (node_ports root_resolver) graph_imports 0 [Inl ''/util.js''] [] False None =
     Inr (graph_pruned, Some [2])"
  by code_simp

lemma example_self:
  "updateModuleInfo (node_ports root_resolver) graph_main 0 [Inl ''/main.js?import'', Inl ''/util.js''] [] True None =
     Inr (graph_self, None)"
  by code_simp

lemma example_alias:
  "ensureEntryFromUrl (node_ports root_resolver) graph_main ''/@fs/root/main.js'' None = Inr (graph_alias, 1)"
  by code_simp

lemma example_partial:
  "createFileOnlyEntry (node_ports root_resolver) empty_graph ''/src/partial.css'' = (graph_partial, 0)"
  by code_simp

lemma example_partial_url:
  "ensureEntryFromUrl (node_ports root_resolver) graph_partial ''/@fs//src/partial.css'' None =
     Inr (graph_partial_url, 1)"
  by code_simp

lemma example_partial_self:
  "updateModuleInfo (node_ports root_resolver) graph_partial 0 [Inl ''/@fs//src/partial.css''] [] False None =
     Inr (graph_partial_self, None)"
  by code_simp

lemma example_raised:
  "updateModuleInfo (node_ports root_resolver) graph_imports 0 [Inl ''/util.js'', Inl ''?x''] [] False None =
     Inl (TypeError, graph_raised)"
  by code_simp


lemma reachable_main: "reachable (node_ports root_resolver) graph_main"
  by (rule reachable.ensureEntry [OF reachable.initial example_main])

lemma reachable_imports: "reachable (node_ports root_resolver) graph_imports"
  by (rule reachable.updateInfo [OF reachable_main _ _ _ example_imports])
    (simp_all add: graph_main_def)

lemma reachable_partial: "reachable (node_ports root_resolver) graph_partial"
  by (rule reachable.fileOnlyEntry [OF reachable.initial example_partial])

lemma reachable_partial_url: "reachable (node_ports root_resolver) graph_partial_url"
  by (rule reachable.ensureEntry [OF reachable_partial example_partial_url])


lemma attainable_raised: "attainable (node_ports root_resolver) graph_raised"
  by (rule attainable.updateRaised [OF reachable_attainable [OF reachable_imports] _ _ _ example_raised])
    (simp_all add: graph_imports_def)

lemma attainable_partial_url: "attainable (node_ports root_resolver) graph_partial_url"
  by (rule reachable_attainable [OF reachable_partial_url])

section \<open>Edge symmetry and index consistency\<close>






text \<open>
  Claim C2, as amended. In every state that the graph operations reach from the empty
  graph, one call after the other, also after an \<open>updateModuleInfo\<close> that raises:

  \<^item> the URL index maps each of its URLs to a node with that url that has an id, and
    every node that has an id is the entry under its url, so that no two nodes with an
    id have the same url; the node that \<open>ensureEntryFromUrl\<close> returns has an id and is
    the entry under its url;
  \<^item> the id index maps each of its ids to a node with that id, namely the one made last
    of the nodes with that id, and the id of every node is a key of it;
  \<^item> the file index holds, under a file, nodes with that file only, and every node, also
    one made by \<open>createFileOnlyEntry\<close>, under its file;
  \<^item> a node without an id is in neither the URL index nor the id index, and the node
    that \<open>createFileOnlyEntry\<close> makes has no id and is added to the file index only.
\<close>

theorem index_consistency:
  assumes "attainable p g"
  shows "index_consistent g \<and> index_origin g \<and>
     (\<forall>r < length (heap g). id' (heap g ! r) = None \<longrightarrow>
        (\<forall>u. map_of (urlToModuleMap g) u \<noteq> Some r) \<and>
        (\<forall>i. map_of (idToModuleMap g) i \<noteq> Some r)) \<and>
     (\<forall>a < length (heap g). \<forall>b < length (heap g).
        id' (heap g ! a) \<noteq> None \<longrightarrow> id' (heap g ! b) \<noteq> None \<longrightarrow>
        url (heap g ! a) = url (heap g ! b) \<longrightarrow> a = b) \<and>
     (\<forall>raw ssr g' n. ensureEntryFromUrl p g raw ssr = Inr (g', n) \<longrightarrow>
        n < length (heap g') \<and> id' (heap g' ! n) \<noteq> None \<and>
        map_of (urlToModuleMap g') (url (heap g' ! n)) = Some n) \<and>
     (\<forall>f g' n. createFileOnlyEntry p g f = (g', n) \<longrightarrow> length (heap g) \<le> n \<longrightarrow>
        n < length (heap g') \<and> id' (heap g' ! n) = None \<and>
        urlToModuleMap g' = urlToModuleMap g \<and> idToModuleMap g' = idToModuleMap g \<and>
        (\<exists>ms. map_of (fileToModulesMap g') (normalizePath p f) = Some ms \<and> n \<in> set ms))"
proof -
  from attainable_index_inv [OF assms]
  have ic: "index_consistent g" and io: "index_origin g"
    unfolding index_inv_def by blast+
  note url_entry = ic [unfolded index_consistent_def, THEN conjunct1, rule_format]
  note id_entry = ic [unfolded index_consistent_def, THEN conjunct2, THEN conjunct1, rule_format]
  note file_entry = ic [unfolded index_consistent_def, THEN conjunct2, THEN conjunct2, THEN conjunct1,
      rule_format]
  note node_entry = ic [unfolded index_consistent_def, THEN conjunct2, THEN conjunct2, THEN conjunct2,
      rule_format]
  note url_origin = io [unfolded index_origin_def, THEN conjunct1, rule_format]
  have none: "(\<forall>u. map_of (urlToModuleMap g) u \<noteq> Some r) \<and> (\<forall>i. map_of (idToModuleMap g) i \<noteq> Some r)"
    if "r < length (heap g)" "id' (heap g ! r) = None" for r
  proof (intro conjI allI notI)
    fix u assume "map_of (urlToModuleMap g) u = Some r"
    from url_origin [OF this] that(2) show False by simp
  next
    fix i assume "map_of (idToModuleMap g) i = Some r"
    from id_entry [OF this] that(2) show False by simp
  qed
  have one: "a = b"
    if "a < length (heap g)" "b < length (heap g)" "id' (heap g ! a) \<noteq> None"
      "id' (heap g ! b) \<noteq> None" "url (heap g ! a) = url (heap g ! b)" for a b
  proof -
    from that(3) obtain i where "id' (heap g ! a) = Some i" by blast
    with node_entry [OF that(1)] have "map_of (urlToModuleMap g) (url (heap g ! a)) = Some a" by blast
    then have ea: "map_of (urlToModuleMap g) (url (heap g ! b)) = Some a" unfolding that(5) .
    from that(4) obtain j where "id' (heap g ! b) = Some j" by blast
    with node_entry [OF that(2)] have eb: "map_of (urlToModuleMap g) (url (heap g ! b)) = Some b" by blast
    have "Some a = Some b" by (rule trans [OF sym [OF ea] eb])
    then show ?thesis by (rule option.inject [THEN iffD1])
  qed
  have entered: "n < length (heap g') \<and> id' (heap g' ! n) \<noteq> None \<and>
        map_of (urlToModuleMap g') (url (heap g' ! n)) = Some n"
    if e: "ensureEntryFromUrl p g raw ssr = Inr (g', n)" for raw ssr g' n
  proof -
    from attainable_index_inv [OF attainable.ensureEntry [OF assms e]]
    have ic': "index_consistent g'" and io': "index_origin g'"
      unfolding index_inv_def by blast+
    from e obtain u rid m where r: "resolveUrl p raw ssr = Inr (u, rid, m)"
      by (auto simp: ensureEntryFromUrl_def split: sum.splits)
    from ensureEntryFromUrl_registers [OF r, of g] e
    have reg: "map_of (urlToModuleMap g') u = Some n" by auto
    from ic' reg have "n < length (heap g')" "url (heap g' ! n) = u"
      unfolding index_consistent_def by blast+
    moreover from io' reg have "id' (heap g' ! n) \<noteq> None"
      unfolding index_origin_def by blast
    ultimately show ?thesis using reg by simp
  qed
  have made: "n < length (heap g') \<and> id' (heap g' ! n) = None \<and>
        urlToModuleMap g' = urlToModuleMap g \<and> idToModuleMap g' = idToModuleMap g \<and>
        (\<exists>ms. map_of (fileToModulesMap g') (normalizePath p f) = Some ms \<and> n \<in> set ms)"
    if c: "createFileOnlyEntry p g f = (g', n)" and fresh: "length (heap g) \<le> n" for f g' n
  proof -
    let ?ms = "case map_of (fileToModulesMap g) (normalizePath p f) of None \<Rightarrow> [] | Some ms \<Rightarrow> ms"
    have "n \<notin> set ?ms"
    proof
      assume n: "n \<in> set ?ms"
      then obtain ms where "map_of (fileToModulesMap g) (normalizePath p f) = Some ms" "n \<in> set ms"
        by (cases "map_of (fileToModulesMap g) (normalizePath p f)") auto
      from file_entry [OF this] fresh show False by simp
    qed
    with createFileOnlyEntry_fresh [OF c]
    have n: "n = length (heap g)"
      and g': "g' = g\<lparr>heap := heap g @ [(new_ModuleNode p (FS_PREFIX p @ normalizePath p f))\<lparr>file' := Some (normalizePath p f)\<rparr>],
                fileToModulesMap := AList.update (normalizePath p f)
                  (set_add (length (heap g)) ?ms) (fileToModulesMap g)\<rparr>"
      by blast+
    have "map_of (fileToModulesMap g') (normalizePath p f) = Some (set_add (length (heap g)) ?ms) \<and>
        n \<in> set (set_add (length (heap g)) ?ms)"
      unfolding g' n by (simp add: update_conv')
    then have "\<exists>ms. map_of (fileToModulesMap g') (normalizePath p f) = Some ms \<and> n \<in> set ms"
      by (rule exI)
    moreover have "n < length (heap g')" "id' (heap g' ! n) = None"
      "urlToModuleMap g' = urlToModuleMap g" "idToModuleMap g' = idToModuleMap g"
      unfolding g' n by simp_all
    ultimately show ?thesis by blast
  qed
  have c3: "\<forall>r < length (heap g). id' (heap g ! r) = None \<longrightarrow>
        (\<forall>u. map_of (urlToModuleMap g) u \<noteq> Some r) \<and>
        (\<forall>i. map_of (idToModuleMap g) i \<noteq> Some r)"
    by (intro allI impI) (rule none)
  have c4: "\<forall>a < length (heap g). \<forall>b < length (heap g).
        id' (heap g ! a) \<noteq> None \<longrightarrow> id' (heap g ! b) \<noteq> None \<longrightarrow>
        url (heap g ! a) = url (heap g ! b) \<longrightarrow> a = b"
    by (intro allI impI) (rule one)
  have c5: "\<forall>raw ssr g' n. ensureEntryFromUrl p g raw ssr = Inr (g', n) \<longrightarrow>
        n < length (heap g') \<and> id' (heap g' ! n) \<noteq> None \<and>
        map_of (urlToModuleMap g') (url (heap g' ! n)) = Some n"
    by (intro allI impI) (rule entered)
  have c6: "\<forall>f g' n. createFileOnlyEntry p g f = (g', n) \<longrightarrow> length (heap g) \<le> n \<longrightarrow>
        n < length (heap g') \<and> id' (heap g' ! n) = None \<and>
        urlToModuleMap g' = urlToModuleMap g \<and> idToModuleMap g' = idToModuleMap g \<and>
        (\<exists>ms. map_of (fileToModulesMap g') (normalizePath p f) = Some ms \<and> n \<in> set ms)"
    by (intro allI impI) (rule made)
  show ?thesis
    by (rule conjI [OF ic conjI [OF io conjI [OF c3 conjI [OF c4 conjI [OF c5 c6]]]]])
qed

theorem index_consistency_witness:
  "attainable (node_ports root_resolver) graph_partial_url \<and>
   index_consistent graph_partial_url \<and> index_origin graph_partial_url \<and>
   0 < length (heap graph_partial_url) \<and> id' (heap graph_partial_url ! 0) = None \<and>
   map_of (urlToModuleMap graph_partial_url) ''/@fs//src/partial.css'' \<noteq> Some 0 \<and>
   attainable (node_ports root_resolver) graph_raised \<and>
   index_consistent graph_raised \<and> index_origin graph_raised"
proof -
  note inst = index_consistency [OF attainable_partial_url]
  note raised = index_consistency [OF attainable_raised]
  have len: "0 < length (heap graph_partial_url)" by (simp add: graph_partial_url_def)
  have noid: "id' (heap graph_partial_url ! 0) = None"
    by (simp add: graph_partial_url_def plain_node_def)
  from inst have "\<forall>r < length (heap graph_partial_url). id' (heap graph_partial_url ! r) = None \<longrightarrow>
        (\<forall>u. map_of (urlToModuleMap graph_partial_url) u \<noteq> Some r) \<and>
        (\<forall>i. map_of (idToModuleMap graph_partial_url) i \<noteq> Some r)"
    by (elim conjE)
  with len noid have out: "map_of (urlToModuleMap graph_partial_url) ''/@fs//src/partial.css'' \<noteq> Some 0"
    by blast
  show ?thesis
    by (intro conjI attainable_partial_url conjunct1 [OF inst] conjunct1 [OF conjunct2 [OF inst]]
        len noid out attainable_raised conjunct1 [OF raised] conjunct1 [OF conjunct2 [OF raised]])
qed


text \<open>
  The claim as stated fails in two ways. The node made by \<open>createFileOnlyEntry\<close> is in
  neither the URL index nor the id index, and \<open>ensureEntryFromUrl\<close> for its URL makes a
  second node with the same url. And when two URLs resolve to the same id, the id index
  keeps the later node only.
\<close>

theorem index_consistency_counterexample:
  "createFileOnlyEntry (node_ports root_resolver) empty_graph ''/src/partial.css'' = (graph_partial, 0) \<and>
   0 < length (heap graph_partial) \<and>
   map_of (urlToModuleMap graph_partial) (url (heap graph_partial ! 0)) \<noteq> Some 0 \<and>
   id' (heap graph_partial ! 0) = None \<and>
   ensureEntryFromUrl (node_ports root_resolver) graph_partial ''/@fs//src/partial.css'' None =
     Inr (graph_partial_url, 1) \<and>
   url (heap graph_partial_url ! 0) = url (heap graph_partial_url ! 1) \<and>
   ensureEntryFromUrl (node_ports root_resolver) empty_graph ''/main.js'' None = Inr (graph_main, 0) \<and>
   ensureEntryFromUrl (node_ports root_resolver) graph_main ''/@fs/root/main.js'' None = Inr (graph_alias, 1) \<and>
   id' (heap graph_alias ! 0) = Some ''/root/main.js'' \<and>
   map_of (idToModuleMap graph_alias) ''/root/main.js'' \<noteq> Some 0"
  using example_partial example_partial_url example_main example_alias
  by (simp add: graph_partial_def graph_partial_url_def graph_alias_def plain_node_def)


section \<open>Orphans and self-imports\<close>

text \<open>
  Claim C3. Let \<open>updateModuleInfo\<close> be called for the node \<open>md\<close> of a reachable state and
  return. For every node \<open>z\<close> that \<open>md\<close> imported before and that is not in the fresh
  import set, \<open>md\<close> is removed from the importers of \<open>z\<close> (nothing else changes in that
  set), and \<open>z\<close> is in the returned set exactly when it has no importer left. The call
  returns \<open>undefined\<close> exactly when no node imported before ends with no importer, and
  never an empty set. The fresh import set holds the nodes passed and the nodes of the
  URLs passed, and nothing else.
\<close>

theorem orphan_detection:
  assumes reach: "reachable p g" and md: "md < length (heap g)"
    and vi: "\<forall>n. Inr n \<in> set imported \<longrightarrow> n < length (heap g)"
    and va: "\<forall>n. Inr n \<in> set accepted \<longrightarrow> n < length (heap g)"
    and u: "updateModuleInfo p g md imported accepted selfAccepting ssr = Inr (g', ret)"
  shows "(\<forall>z \<in> set (importedModules (heap g ! md)). z \<notin> set (importedModules (heap g' ! md)) \<longrightarrow>
            md \<notin> set (importers (heap g' ! z)) \<and>
            set (importers (heap g' ! z)) = set (importers (heap g ! z)) - {md} \<and>
            (z \<in> orphan_set ret \<longleftrightarrow> importers (heap g' ! z) = [])) \<and>
         (ret = None \<longleftrightarrow> (\<forall>d \<in> set (importedModules (heap g ! md)). importers (heap g' ! d) \<noteq> [])) \<and>
         ret \<noteq> Some [] \<and>
         (\<forall>n. Inr n \<in> set imported \<longrightarrow> n \<in> set (importedModules (heap g' ! md))) \<and>
         (\<forall>d \<in> set (importedModules (heap g' ! md)). import_origin p ssr g imported d)"
proof -
  from reachable_graph_inv [OF reach]
  have bal: "edges_balanced (heap g)" and ia: "index_allocated g" and ic: "index_consistent g"
    unfolding graph_inv_def by blast+
  have vp: "\<forall>d \<in> imports_of (heap g) md. d < length (heap g)"
    using edges_balanced_allocated [OF bal] by blast
  note U = updateModuleInfo_inv [OF u ia ic md vi va vp]
  let ?P = "imports_of (heap g) md" and ?D = "imports_of (heap g') md"
  from md U(3) have md': "md < length (heap g')" by simp
  have P: "set (importedModules (heap g ! md)) = ?P" using md by (simp add: imports_of_def)
  have D: "set (importedModules (heap g' ! md)) = ?D" using md' by (simp add: imports_of_def)
  have old: "set (importers (heap g ! d)) = importers_of (heap g) d"
    and new: "set (importers (heap g' ! d)) = importers_of (heap g') d" if "d \<in> ?P" for d
    using vp U(3) that by (auto simp: importers_of_def)
  have new_empty: "importers (heap g' ! d) = [] \<longleftrightarrow> importers_of (heap g') d = {}" if "d \<in> ?P" for d
    using new [OF that] by (simp add: set_empty [symmetric] del: set_empty)
  have dropped: "importers_of (heap g') z = importers_of (heap g) z - {md}" if "z \<in> ?P" "z \<notin> ?D" for z
    unfolding U(5) using that by simp
  have kept: "md \<in> importers_of (heap g') d" if "d \<in> ?D" for d
    unfolding U(5) using that by simp
  have 1: "md \<notin> set (importers (heap g' ! z)) \<and>
            set (importers (heap g' ! z)) = set (importers (heap g ! z)) - {md} \<and>
            (z \<in> orphan_set ret \<longleftrightarrow> importers (heap g' ! z) = [])"
    if "z \<in> ?P" "z \<notin> ?D" for z
  proof -
    have "z \<in> orphan_set ret \<longleftrightarrow> importers_of (heap g) z - {md} = {}"
      unfolding U(9) using that by simp
    then show ?thesis
      unfolding new_empty [OF that(1)] new [OF that(1)] old [OF that(1)] dropped [OF that] by auto
  qed
  have 2: "ret = None \<longleftrightarrow> (\<forall>d \<in> ?P. importers (heap g' ! d) \<noteq> [])"
  proof -
    have "importers (heap g' ! d) \<noteq> [] \<longleftrightarrow> \<not> (d \<notin> ?D \<and> importers_of (heap g) d - {md} = {})"
      if "d \<in> ?P" for d
    proof (cases "d \<in> ?D")
      case True
      from kept [OF True] show ?thesis unfolding new_empty [OF that] using True by auto
    next
      case False
      from dropped [OF that False] show ?thesis unfolding new_empty [OF that] using False by auto
    qed
    then show ?thesis unfolding U(10) by blast
  qed
  from 1 2 U(11) U(7) U(12) show ?thesis unfolding P D by blast
qed


theorem orphan_detection_witness:
  "reachable (node_ports root_resolver) graph_imports \<and>
   updateModuleInfo (node_ports root_resolver) graph_imports 0 [Inl ''/util.js''] [] False None =
     Inr (graph_pruned, Some [2]) \<and>
   set (importedModules (heap graph_imports ! 0)) = {1, 2} \<and>
   set (importedModules (heap graph_pruned ! 0)) = {1} \<and>
   0 \<notin> set (importers (heap graph_pruned ! 2)) \<and>
   (2 \<in> orphan_set (Some [2]) \<longleftrightarrow> importers (heap graph_pruned ! 2) = [])"
proof -
  have md: "(0::nat) < length (heap graph_imports)" by (simp add: graph_imports_def)
  have vi: "\<forall>n. Inr n \<in> set [Inl ''/util.js''] \<longrightarrow> n < length (heap graph_imports)" by simp
  have va: "\<forall>n. Inr n \<in> set ([] :: (string + ref) list) \<longrightarrow> n < length (heap graph_imports)" by simp
  note inst = orphan_detection [OF reachable_imports md vi va example_pruned]
  have p: "set (importedModules (heap graph_imports ! 0)) = {1, 2}" by (simp add: graph_imports_def)
  have n: "set (importedModules (heap graph_pruned ! 0)) = {1}"
    by (simp add: graph_pruned_def graph_imports_def)
  from inst have "\<forall>z \<in> set (importedModules (heap graph_imports ! 0)).
      z \<notin> set (importedModules (heap graph_pruned ! 0)) \<longrightarrow>
            0 \<notin> set (importers (heap graph_pruned ! z)) \<and>
            set (importers (heap graph_pruned ! z)) = set (importers (heap graph_imports ! z)) - {0} \<and>
            (z \<in> orphan_set (Some [2]) \<longleftrightarrow> importers (heap graph_pruned ! z) = [])"
    by (rule conjunct1)
  then have "0 \<notin> set (importers (heap graph_pruned ! 2)) \<and>
      (2 \<in> orphan_set (Some [2]) \<longleftrightarrow> importers (heap graph_pruned ! 2) = [])"
    unfolding p n by simp
  with reachable_imports example_pruned p n show ?thesis by blast
qed


text \<open>
  Claim C10, as amended. If the imported set passed for \<open>md\<close> holds \<open>md\<close> itself, as the
  node or as a URL whose canonical URL the URL index maps to \<open>md\<close>, then after the call
  \<open>md\<close> is in its own importers and in its own imported modules, it is not in the
  returned set, and the edges are symmetric.
\<close>

theorem self_import:
  assumes reach: "reachable p g" and md: "md < length (heap g)"
    and vi: "\<forall>n. Inr n \<in> set imported \<longrightarrow> n < length (heap g)"
    and va: "\<forall>n. Inr n \<in> set accepted \<longrightarrow> n < length (heap g)"
    and u: "updateModuleInfo p g md imported accepted selfAccepting ssr = Inr (g', ret)"
    and self: "Inr md \<in> set imported \<or>
      (\<exists>raw u rid m. Inl raw \<in> set imported \<and> resolveUrl p raw ssr = Inr (u, rid, m) \<and>
         map_of (urlToModuleMap g) u = Some md)"
  shows "md \<in> set (importers (heap g' ! md)) \<and> md \<in> set (importedModules (heap g' ! md)) \<and>
         md \<notin> orphan_set ret \<and> edge_symmetric (heap g')"
proof -
  from reachable_graph_inv [OF reach]
  have bal: "edges_balanced (heap g)" and ia: "index_allocated g" and ic: "index_consistent g"
    unfolding graph_inv_def by blast+
  have vp: "\<forall>d \<in> imports_of (heap g) md. d < length (heap g)"
    using edges_balanced_allocated [OF bal] by blast
  note U = updateModuleInfo_inv [OF u ia ic md vi va vp]
  from md U(3) have md': "md < length (heap g')" by simp
  from self U(7) U(8) have D: "md \<in> imports_of (heap g') md" by blast
  then have "md \<in> importers_of (heap g') md" unfolding U(5) by simp
  moreover from D have "md \<notin> orphan_set ret" unfolding U(9) by simp
  moreover have "edge_symmetric (heap g')"
    using updateModuleInfo_graph_inv [OF u reachable_graph_inv [OF reach] md vi va]
      edges_balanced_symmetric unfolding graph_inv_def by blast
  ultimately show ?thesis using D md' by (simp add: imports_of_def importers_of_def)
qed


theorem self_import_witness:
  "reachable (node_ports root_resolver) graph_main \<and>
   updateModuleInfo (node_ports root_resolver) graph_main 0 [Inl ''/main.js?import'', Inl ''/util.js''] [] True None =
     Inr (graph_self, None) \<and>
   resolveUrl (node_ports root_resolver) ''/main.js?import'' None = Inr (''/main.js'', ''/root/main.js'', None) \<and>
   map_of (urlToModuleMap graph_main) ''/main.js'' = Some 0 \<and>
   0 \<in> set (importers (heap graph_self ! 0)) \<and> 0 \<in> set (importedModules (heap graph_self ! 0)) \<and>
   0 \<notin> orphan_set None"
proof -
  have md: "(0::nat) < length (heap graph_main)" by (simp add: graph_main_def)
  have vi: "\<forall>n. Inr n \<in> set [Inl ''/main.js?import'', Inl ''/util.js''] \<longrightarrow> n < length (heap graph_main)"
    by simp
  have va: "\<forall>n. Inr n \<in> set ([] :: (string + ref) list) \<longrightarrow> n < length (heap graph_main)" by simp
  have r: "resolveUrl (node_ports root_resolver) ''/main.js?import'' None =
      Inr (''/main.js'', ''/root/main.js'', None)"
    by code_simp
  have m: "map_of (urlToModuleMap graph_main) ''/main.js'' = Some 0" by (simp add: graph_main_def)
  have self: "Inr 0 \<in> set [Inl ''/main.js?import'', Inl ''/util.js''] \<or>
      (\<exists>raw u rid m. Inl raw \<in> set [Inl ''/main.js?import'', Inl ''/util.js''] \<and>
         resolveUrl (node_ports root_resolver) raw None = Inr (u, rid, m) \<and>
         map_of (urlToModuleMap graph_main) u = Some 0)"
    using r m by (intro disjI2 exI [of _ "''/main.js?import''"] exI [of _ "''/main.js''"]
        exI [of _ "''/root/main.js''"] exI [of _ None]) simp
  note inst = self_import [OF reachable_main md vi va example_self self]
  from inst reachable_main example_self r m show ?thesis by blast
qed


text \<open>
  The claim as stated is for every URL that canonicalizes to the url of the node. A node
  made by \<open>createFileOnlyEntry\<close> is not in the URL index: passing its own url makes a second
  node, and the first node imports that one, not itself.
\<close>

theorem self_import_counterexample:
  "createFileOnlyEntry (node_ports root_resolver) empty_graph ''/src/partial.css'' = (graph_partial, 0) \<and>
   resolveUrl (node_ports root_resolver) ''/@fs//src/partial.css'' None =
     Inr (url (heap graph_partial ! 0), ''/src/partial.css'', None) \<and>
   updateModuleInfo (node_ports root_resolver) graph_partial 0 [Inl ''/@fs//src/partial.css''] [] False None =
     Inr (graph_partial_self, None) \<and>
   0 \<notin> set (importers (heap graph_partial_self ! 0)) \<and>
   0 \<notin> set (importedModules (heap graph_partial_self ! 0))"
proof -
  have r: "resolveUrl (node_ports root_resolver) ''/@fs//src/partial.css'' None =
     Inr (url (heap graph_partial ! 0), ''/src/partial.css'', None)"
    by code_simp
  have "0 \<notin> set (importers (heap graph_partial_self ! 0)) \<and>
        0 \<notin> set (importedModules (heap graph_partial_self ! 0))"
    by (simp add: graph_partial_self_def graph_partial_url_def plain_node_def)
  with example_partial r example_partial_self show ?thesis by blast
qed

end
